theory Spec2Isabelle
  imports Main "HOL-Library.Word"
begin

section \<open>Pattern matcher (matcher.go)\<close>

text \<open>
  Go strings are byte sequences; a \<^typ>\<open>string\<close> is a list of 8-bit characters, so
  \<open>len\<close>, indexing and slicing are \<^const>\<open>length\<close>, \<open>!\<close>, \<^const>\<open>take\<close> and \<^const>\<open>drop\<close>.

  \<open>strings.IndexByte s c\<close> is the index of the first \<open>c\<close> in \<open>s\<close>; the result \<open>-1\<close> of the
  library is \<^const>\<open>None\<close> here.
\<close>

fun IndexByte :: "string \<Rightarrow> char \<Rightarrow> nat option" where
  "IndexByte [] c = None"
| "IndexByte (x # xs) c =
     (if x = c then Some 0
      else (case IndexByte xs c of None \<Rightarrow> None | Some k \<Rightarrow> Some (Suc k)))"

text \<open>
  \<open>matchInternal\<close> keeps two cursors \<open>pi\<close> and \<open>vi\<close> in an endless \<open>for\<close> loop and calls
  itself on slices \<open>pattern[pi:]\<close>, \<open>value[i:]\<close>.  \<open>matchLoop pattern val pi vi\<close> is one
  run of the loop from the cursors \<open>pi\<close>, \<open>vi\<close>; the branches come in the order of the
  source.  The two inner \<open>for i := vi; i <= ...; i++\<close> loops return true at the first \<open>i\<close>
  whose recursive call succeeds and false otherwise, which is \<^const>\<open>list_ex\<close> over the
  range of \<open>i\<close>.
\<close>

function matchLoop :: "string \<Rightarrow> string \<Rightarrow> nat \<Rightarrow> nat \<Rightarrow> bool" where
  "matchLoop pattern val pi vi =
     (if pi \<ge> length pattern \<and> vi \<ge> length val then True
      else if pi \<ge> length pattern then False
      else if pi + 1 < length pattern \<and> take 2 (drop pi pattern) = ''**'' then
        (let pi2 = pi + 2 in
         if pi2 \<ge> length pattern then True
         else
           (let pi3 = (if pi2 < length pattern \<and> pattern ! pi2 = CHR ''/'' then pi2 + 1 else pi2)
            in list_ex (\<lambda>i. matchLoop (drop pi3 pattern) (drop i val) 0 0)
                 [vi ..< Suc (length val)]))
      else if pi < length pattern \<and> pattern ! pi = CHR ''*'' then
        (let pi1 = pi + 1;
             nextSlash = IndexByte (drop pi1 pattern) (CHR ''/'');
             suffix = (case nextSlash of Some k \<Rightarrow> take k (drop pi1 pattern)
                        | None \<Rightarrow> drop pi1 pattern);
             valueSlash = IndexByte (drop vi val) (CHR ''/'');
             searchEnd = (case valueSlash of Some k \<Rightarrow> vi + k | None \<Rightarrow> length val)
         in if suffix = [] then
              (case valueSlash of
                 Some k \<Rightarrow> matchLoop (drop pi1 pattern) (drop (vi + k) val) 0 0
               | None \<Rightarrow> matchLoop (drop pi1 pattern) [] 0 0)
            else list_ex (\<lambda>i. matchLoop (drop pi1 pattern) (drop i val) 0 0)
                   [vi ..< Suc searchEnd])
      else if vi \<ge> length val then
        (let rest = drop pi pattern in rest = ''*'' \<or> rest = ''**'' \<or> rest = [])
      else if pattern ! pi \<noteq> val ! vi then False
      else matchLoop pattern val (pi + 1) (vi + 1))"
  by pat_completeness auto
termination
  by (relation "measure (\<lambda>(p, v, pi, vi). length p - pi)") auto

declare matchLoop.simps [simp del]

definition matchInternal :: "string \<Rightarrow> string \<Rightarrow> bool" where
  "matchInternal pattern val = matchLoop pattern val 0 0"

definition Match :: "string \<Rightarrow> string \<Rightarrow> bool" where
  "Match pattern val = matchInternal pattern val"

fun MatchAny :: "string list \<Rightarrow> string \<Rightarrow> bool" where
  "MatchAny [] val = False"
| "MatchAny (pattern # patterns) val = (if Match pattern val then True else MatchAny patterns val)"

text \<open>Vocabulary for the statements about the matcher: the loop stands at a \<open>**\<close> token; a
  pattern without any wildcard character.\<close>

definition isDouble :: "string \<Rightarrow> nat \<Rightarrow> bool" where
  "isDouble p pi = (pi + 1 < length p \<and> take 2 (drop pi p) = ''**'')"

definition literal :: "string \<Rightarrow> bool" where
  "literal p = (CHR ''*'' \<notin> set p)"

text \<open>
  The tokens of a pattern, as the loop of \<open>matchInternal\<close> reads them from left to right: two
  stars in a row are one \<open>**\<close> token, which, unless it ends the pattern, also takes a \<open>/\<close>
  that follows it; any other star is a \<open>*\<close> token; every other character stands for itself.
\<close>

datatype token = Lit char | Star | DoubleStar

function tokens :: "string \<Rightarrow> token list" where
  "tokens [] = []"
| "tokens (c # p) =
     (if c \<noteq> CHR ''*'' then Lit c # tokens p
      else if p \<noteq> [] \<and> hd p = CHR ''*'' then
        DoubleStar # tokens (if tl p \<noteq> [] \<and> hd (tl p) = CHR ''/'' then tl (tl p) else tl p)
      else Star # tokens p)"
  by pat_completeness auto
termination
  by (relation "measure length") auto

text \<open>The spans of a value a token may stand for: a literal character for itself, \<open>*\<close> for
  any span without \<open>/\<close>, \<open>**\<close> for any span.\<close>

fun span_ok :: "token \<Rightarrow> string \<Rightarrow> bool" where
  "span_ok (Lit c) s = (s = [c])"
| "span_ok Star s = (CHR ''/'' \<notin> set s)"
| "span_ok DoubleStar s = True"

text \<open>Trying every split of the value, token by token.\<close>

fun tmatch :: "token list \<Rightarrow> string \<Rightarrow> bool" where
  "tmatch [] v = (v = [])"
| "tmatch (t # ts) v =
     list_ex (\<lambda>i. span_ok t (take i v) \<and> tmatch ts (drop i v)) [0 ..< Suc (length v)]"



section \<open>Errors (errors.go)\<close>

datatype category =
    ErrInvalidToken | ErrTokenExpired | ErrInvalidSignature | ErrInvalidAudience
  | ErrInvalidIssuer | ErrAccessDenied | ErrJWKSFetch | ErrKeyNotFound

text \<open>
  A header value of a token: the key function only asks whether it is a Go string.
\<close>

datatype hval = HString string | HOther

text \<open>
  The reason of a \<open>ValidationError\<close> is a string.  Where the source builds it with
  \<open>fmt.Sprintf\<close>, the format and its argument are kept apart, since the rendering of
  \<open>%q\<close>, \<open>%v\<close> and \<open>%d\<close> belongs to the \<open>fmt\<close> package:
  \<open>KeyIDNotFound kid\<close> is \<open>"key ID %q not found in JWKS"\<close>, \<open>HTTPStatus n\<close> is \<open>"HTTP %d"\<close>,
  \<open>UnexpectedSigningMethod a\<close> is \<open>"unexpected signing method: %v"\<close> of the \<open>alg\<close> header.
\<close>

datatype reason =
    Text string
  | HTTPStatus int
  | KeyIDNotFound string
  | UnexpectedSigningMethod "hval option"

datatype ValidationError = NewValidationError (Err: category) (Reason: reason)



section \<open>Claims (claims.go)\<close>

text \<open>
  The fields of \<open>GitHubActionsClaims\<close> that the code reads: the issuer of the embedded
  registered claims and the nine attributes a condition can name.  The other fields of the
  struct are carried along and never inspected.
\<close>

record GitHubActionsClaims =
  Issuer :: string
  Repository :: string
  RepositoryOwner :: string
  RepositoryVisibility :: string
  Ref :: string
  RefType :: string
  Workflow :: string
  EventName :: string
  Actor :: string
  Environment :: string

definition Claims_Validate :: "GitHubActionsClaims \<Rightarrow> ValidationError option" where
  "Claims_Validate c =
     (if Issuer c \<noteq> ''https://token.actions.githubusercontent.com'' then
        Some (NewValidationError ErrInvalidIssuer
                (Text ''expected https://token.actions.githubusercontent.com''))
      else if Repository c = [] then
        Some (NewValidationError ErrInvalidToken (Text ''repository claim is required''))
      else if RepositoryOwner c = [] then
        Some (NewValidationError ErrInvalidToken (Text ''repository_owner claim is required''))
      else if Ref c = [] then
        Some (NewValidationError ErrInvalidToken (Text ''ref claim is required''))
      else if Workflow c = [] then
        Some (NewValidationError ErrInvalidToken (Text ''workflow claim is required''))
      else if EventName c = [] then
        Some (NewValidationError ErrInvalidToken (Text ''event_name claim is required''))
      else if Actor c = [] then
        Some (NewValidationError ErrInvalidToken (Text ''actor claim is required''))
      else None)"


section \<open>Policy engine (policy.go)\<close>

type_synonym Effect = string

definition EffectAllow :: Effect where
  "EffectAllow = ''allow''"

definition EffectDeny :: Effect where
  "EffectDeny = ''deny''"

text \<open>The pattern lists of a rule; the field \<open>X\<close> of the struct \<open>Conditions\<close> is \<open>condX\<close>.\<close>

record Conditions =
  condRepository :: "string list"
  condRepositoryOwner :: "string list"
  condRepositoryVisibility :: "string list"
  condRef :: "string list"
  condRefType :: "string list"
  condWorkflow :: "string list"
  condEventName :: "string list"
  condActor :: "string list"
  condEnvironment :: "string list"

record Rule =
  Name :: string
  Conditions :: Conditions
  Effect :: Effect

record Policy =
  Rules :: "Rule list"
  DefaultDeny :: bool

record EvaluationResult =
  Allowed :: bool
  MatchedRule :: string
  EvalReason :: string

text \<open>\<open>matchesRule\<close> does not use its receiver; the claims pointer is never nil at its
  only call site.\<close>

definition matchesRule :: "Rule \<Rightarrow> GitHubActionsClaims \<Rightarrow> bool" where
  "matchesRule rule claims =
     (let cond = Conditions rule in
      if length (condRepository cond) > 0 \<and> \<not> MatchAny (condRepository cond) (Repository claims)
        then False
      else if length (condRepositoryOwner cond) > 0
              \<and> \<not> MatchAny (condRepositoryOwner cond) (RepositoryOwner claims)
        then False
      else if length (condRepositoryVisibility cond) > 0
              \<and> \<not> MatchAny (condRepositoryVisibility cond) (RepositoryVisibility claims)
        then False
      else if length (condRef cond) > 0 \<and> \<not> MatchAny (condRef cond) (Ref claims)
        then False
      else if length (condRefType cond) > 0 \<and> \<not> MatchAny (condRefType cond) (RefType claims)
        then False
      else if length (condWorkflow cond) > 0 \<and> \<not> MatchAny (condWorkflow cond) (Workflow claims)
        then False
      else if length (condEventName cond) > 0
              \<and> \<not> MatchAny (condEventName cond) (EventName claims)
        then False
      else if length (condActor cond) > 0 \<and> \<not> MatchAny (condActor cond) (Actor claims)
        then False
      else if length (condEnvironment cond) > 0 then
        (if Environment claims = [] then False
         else if \<not> MatchAny (condEnvironment cond) (Environment claims) then False
         else True)
      else True)"

text \<open>The loop of \<open>Evaluate\<close> over the rules: the result of the first rule that matches,
  \<^const>\<open>None\<close> when the loop runs to its end.\<close>

fun Evaluate_rules :: "Rule list \<Rightarrow> GitHubActionsClaims \<Rightarrow> EvaluationResult option" where
  "Evaluate_rules [] claims = None"
| "Evaluate_rules (rule # rules) claims =
     (if matchesRule rule claims then
        (let allowed = (Effect rule = EffectAllow);
             reason = (if Name rule \<noteq> [] then ''rule: '' @ Name rule else ''default'')
         in Some \<lparr>Allowed = allowed, MatchedRule = Name rule, EvalReason = reason\<rparr>)
      else Evaluate_rules rules claims)"

text \<open>The receiver is a pointer: \<^const>\<open>None\<close> is the nil policy.  Fields the source leaves
  out of a struct literal hold the empty string.\<close>

definition Evaluate :: "Policy option \<Rightarrow> GitHubActionsClaims \<Rightarrow> EvaluationResult" where
  "Evaluate p claims =
     (case p of
        None \<Rightarrow> \<lparr>Allowed = True, MatchedRule = [], EvalReason = ''no policy configured''\<rparr>
      | Some pol \<Rightarrow>
          (case Evaluate_rules (Rules pol) claims of
             Some result \<Rightarrow> result
           | None \<Rightarrow>
               if DefaultDeny pol
               then \<lparr>Allowed = False, MatchedRule = [], EvalReason = ''default deny policy''\<rparr>
               else \<lparr>Allowed = True, MatchedRule = [],
                      EvalReason = ''default allow (no matching rules)''\<rparr>))"







section \<open>Key cache (jwks.go)\<close>

subsection \<open>Library functions the key parser calls\<close>

text \<open>
  \<open>base64.RawURLEncoding.DecodeString\<close>: the URL-safe alphabet without padding, not strict.
  The decoder skips carriage returns and line feeds, rejects any other byte outside the
  alphabet (the padding character included), rejects a final group of one character, and
  drops the unused low bits of a final group of two or three characters.  \<^const>\<open>None\<close> is
  the decoder's error.
\<close>

definition encodeURL :: string where
  "encodeURL = ''ABCDEFGHIJKLMNOPQRSTUVWXYZabcdefghijklmnopqrstuvwxyz0123456789-_''"

definition decodeMap :: "char \<Rightarrow> nat option" where
  "decodeMap c = IndexByte encodeURL c"

fun sextets :: "string \<Rightarrow> nat list option" where
  "sextets [] = Some []"
| "sextets (c # cs) =
     (if c = CHR 0x0A \<or> c = CHR 0x0D then sextets cs
      else (case decodeMap c of
              None \<Rightarrow> None
            | Some d \<Rightarrow> (case sextets cs of None \<Rightarrow> None | Some ds \<Rightarrow> Some (d # ds))))"

type_synonym byte = "8 word"

fun quanta :: "nat list \<Rightarrow> byte list option" where
  "quanta [] = Some []"
| "quanta [a] = None"
| "quanta [a, b] = Some [word_of_nat ((a * 262144 + b * 4096) div 65536)]"
| "quanta [a, b, c] =
     (let v = a * 262144 + b * 4096 + c * 64
      in Some [word_of_nat (v div 65536), word_of_nat (v div 256)])"
| "quanta (a # b # c # d # rest) =
     (let v = a * 262144 + b * 4096 + c * 64 + d
      in (case quanta rest of
            None \<Rightarrow> None
          | Some bs \<Rightarrow> Some (word_of_nat (v div 65536) # word_of_nat (v div 256) # word_of_nat v # bs)))"

definition DecodeString :: "string \<Rightarrow> byte list option" where
  "DecodeString s = (case sextets s of None \<Rightarrow> None | Some ds \<Rightarrow> quanta ds)"

text \<open>\<open>new(big.Int).SetBytes\<close>: the bytes as a big-endian unsigned integer.\<close>

definition SetBytes :: "byte list \<Rightarrow> nat" where
  "SetBytes bs = foldl (\<lambda>acc b. acc * 256 + unat b) 0 bs"

text \<open>\<open>int(e.Int64())\<close> of a non-negative \<open>big.Int\<close>: its low 64 bits, read as signed.\<close>

definition Int64 :: "nat \<Rightarrow> int" where
  "Int64 x = sint (word_of_nat x :: 64 word)"

subsection \<open>Keys\<close>

record JWK =
  Kid :: string
  Kty :: string
  Alg :: string
  Use :: string
  N :: string
  E :: string

text \<open>\<open>rsa.PublicKey\<close>, with its fields \<open>N\<close> and \<open>E\<close>.\<close>

record PublicKey =
  pkN :: nat
  pkE :: int

datatype key_error = FailedDecodeN | FailedDecodeE

definition jwkToPublicKey :: "JWK \<Rightarrow> key_error + PublicKey" where
  "jwkToPublicKey jwk =
     (case DecodeString (N jwk) of
        None \<Rightarrow> Inl FailedDecodeN
      | Some nBytes \<Rightarrow>
          (case DecodeString (E jwk) of
             None \<Rightarrow> Inl FailedDecodeE
           | Some eBytes \<Rightarrow>
               (let n = SetBytes nBytes; e = SetBytes eBytes
                in Inr \<lparr>pkN = n, pkE = Int64 e\<rparr>)))"

subsection \<open>The fetcher and the world around it\<close>

text \<open>
  Times are nanoseconds on one time line, durations are 64-bit counts of nanoseconds.
  The fetcher's HTTP client and its lock are not part of the record: the client is the
  \<open>http\<close> field of the world below, and every call is followed on its own, one goroutine
  at a time.
\<close>

record JWKSFetcher =
  url :: string
  cacheDuration :: int
  cache :: "string \<rightharpoonup> PublicKey"
  cachedAt :: int

definition DefaultJWKSURL :: string where
  "DefaultJWKSURL = ''https://token.actions.githubusercontent.com/.well-known/jwks''"

definition DefaultCacheDuration :: int where
  "DefaultCacheDuration = 3600000000000"

text \<open>The zero \<open>time.Time\<close> is 1 January of the year 1, counted from the Unix epoch.\<close>

definition zeroTime :: int where
  "zeroTime = - 62135596800000000000"

definition NewJWKSFetcher :: "string \<Rightarrow> int \<Rightarrow> JWKSFetcher" where
  "NewJWKSFetcher u d =
     \<lparr>url = (if u = [] then DefaultJWKSURL else u),
      cacheDuration = (if d = 0 then DefaultCacheDuration else d),
      cache = Map.empty,
      cachedAt = zeroTime\<rparr>"

text \<open>
  What one run of \<open>refresh\<close> meets outside the program: the request cannot be built
  (\<open>http.NewRequestWithContext\<close> fails), the client's \<open>Do\<close> fails, or a response arrives
  with its status code and with what \<open>json.Decode\<close> makes of its body (an error text, or
  the \<open>Keys\<close> of the decoded \<open>JWKS\<close>).  The strings are the library's \<open>err.Error()\<close>.
\<close>

datatype http_outcome =
    NewRequestError string
  | DoError string
  | Response int "string + JWK list"

text \<open>
  The world: a clock, given by the values of its successive readings and the number of
  readings made so far, and the key-set endpoint, given by what the successive runs of
  \<open>refresh\<close> against a URL meet and the number of runs made so far.  The two counters only
  record what the program did.
\<close>

record world =
  clock :: "nat \<Rightarrow> int"
  ticks :: nat
  http :: "string \<Rightarrow> nat \<Rightarrow> http_outcome"
  refreshes :: nat

definition time_Now :: "world \<Rightarrow> int \<times> world" where
  "time_Now w = (clock w (ticks w), w\<lparr>ticks := Suc (ticks w)\<rparr>)"

text \<open>\<open>time.Since t\<close> is \<open>time.Now().Sub(t)\<close>, which stays within the range of a duration.\<close>

definition time_Since :: "world \<Rightarrow> int \<Rightarrow> int \<times> world" where
  "time_Since w t =
     (let (now, w') = time_Now w
      in (max (- 9223372036854775808) (min 9223372036854775807 (now - t)), w'))"

text \<open>The loop of \<open>refresh\<close> over \<open>jwks.Keys\<close>, filling \<open>newCache\<close>.\<close>

fun convertKeys :: "JWK list \<Rightarrow> (string \<rightharpoonup> PublicKey) \<Rightarrow> (string \<rightharpoonup> PublicKey)" where
  "convertKeys [] newCache = newCache"
| "convertKeys (jwk # jwks) newCache =
     (if Kty jwk \<noteq> ''RSA'' then convertKeys jwks newCache
      else (case jwkToPublicKey jwk of
              Inl err \<Rightarrow> convertKeys jwks newCache
            | Inr key \<Rightarrow> convertKeys jwks (newCache(Kid jwk \<mapsto> key))))"

definition refresh :: "world \<Rightarrow> JWKSFetcher \<Rightarrow> ValidationError option \<times> JWKSFetcher \<times> world" where
  "refresh w f =
     (let w1 = w\<lparr>refreshes := Suc (refreshes w)\<rparr> in
      case http w (url f) (refreshes w) of
        NewRequestError e \<Rightarrow> (Some (NewValidationError ErrJWKSFetch (Text e)), f, w1)
      | DoError e \<Rightarrow> (Some (NewValidationError ErrJWKSFetch (Text e)), f, w1)
      | Response status body \<Rightarrow>
          if status \<noteq> 200 then
            (Some (NewValidationError ErrJWKSFetch (HTTPStatus status)), f, w1)
          else
            (case body of
               Inl e \<Rightarrow> (Some (NewValidationError ErrJWKSFetch (Text e)), f, w1)
             | Inr keys \<Rightarrow>
                 (let newCache = convertKeys keys Map.empty;
                      (now, w2) = time_Now w1
                  in (None, f\<lparr>cache := newCache, cachedAt := now\<rparr>, w2))))"

text \<open>\<open>GetKey\<close> from the comment \<open>Fetch JWKS\<close> on: the path taken on a miss.\<close>

definition GetKey_miss ::
  "world \<Rightarrow> JWKSFetcher \<Rightarrow> string \<Rightarrow> (ValidationError + PublicKey) \<times> JWKSFetcher \<times> world" where
  "GetKey_miss w f kid =
     (case refresh w f of
        (Some err, f', w') \<Rightarrow> (Inl err, f', w')
      | (None, f', w') \<Rightarrow>
          (case cache f' kid of
             None \<Rightarrow> (Inl (NewValidationError ErrKeyNotFound (KeyIDNotFound kid)), f', w')
           | Some key \<Rightarrow> (Inr key, f', w')))"

text \<open>The clock is read only when the key is in the cache (\<open>&&\<close> evaluates its right
  operand only then).\<close>

definition GetKey ::
  "world \<Rightarrow> JWKSFetcher \<Rightarrow> string \<Rightarrow> (ValidationError + PublicKey) \<times> JWKSFetcher \<times> world" where
  "GetKey w f kid =
     (case cache f kid of
        Some key \<Rightarrow>
          (let (age, w') = time_Since w (cachedAt f)
           in if age < cacheDuration f then (Inr key, f, w') else GetKey_miss w' f kid)
      | None \<Rightarrow> GetKey_miss w f kid)"

subsection \<open>The key function\<close>

text \<open>
  The dynamic type of \<open>token.Method\<close>: the signing methods of the JWT library, each with
  its algorithm name, an absent method, and any type from elsewhere.  The type assertion
  \<open>token.Method.(*jwt.SigningMethodRSA)\<close> succeeds on the first constructor only.
\<close>

datatype SigningMethod =
    SigningMethodRSA string
  | SigningMethodRSAPSS string
  | SigningMethodHMAC string
  | SigningMethodECDSA string
  | SigningMethodEd25519
  | SigningMethodNone
  | SigningMethodOther string
  | NilMethod

record Token =
  Method :: SigningMethod
  Header :: "string \<rightharpoonup> hval"

definition isRSA :: "SigningMethod \<Rightarrow> bool" where
  "isRSA m = (case m of SigningMethodRSA a \<Rightarrow> True | _ \<Rightarrow> False)"

definition Keyfunc ::
  "world \<Rightarrow> JWKSFetcher \<Rightarrow> Token \<Rightarrow> (ValidationError + PublicKey) \<times> JWKSFetcher \<times> world" where
  "Keyfunc w f token =
     (if \<not> isRSA (Method token) then
        (Inl (NewValidationError ErrInvalidSignature
                (UnexpectedSigningMethod (Header token ''alg''))), f, w)
      else
        (case Header token ''kid'' of
           Some (HString kid) \<Rightarrow> GetKey w f kid
         | _ \<Rightarrow>
             (Inl (NewValidationError ErrInvalidToken (Text ''missing kid in token header'')),
              f, w)))"


section \<open>Fixtures of the test suite\<close>

text \<open>\<open>baseClaims\<close> and the rules of \<open>TestPolicy_Evaluate\<close>; \<open>emptyConditions\<close> is the struct
  literal \<open>Conditions{}\<close>.\<close>

definition baseClaims :: GitHubActionsClaims where
  "baseClaims =
     \<lparr>Issuer = ''https://token.actions.githubusercontent.com'',
      Repository = ''myorg/myrepo'',
      RepositoryOwner = ''myorg'',
      RepositoryVisibility = ''private'',
      Ref = ''refs/heads/main'',
      RefType = ''branch'',
      Workflow = ''CI'',
      EventName = ''push'',
      Actor = ''johndoe'',
      Environment = []\<rparr>"

definition emptyConditions :: Conditions where
  "emptyConditions =
     \<lparr>condRepository = [], condRepositoryOwner = [], condRepositoryVisibility = [],
      condRef = [], condRefType = [], condWorkflow = [], condEventName = [],
      condActor = [], condEnvironment = []\<rparr>"

definition denyAll :: Rule where
  "denyAll = \<lparr>Name = ''deny-all'',
      Conditions = emptyConditions\<lparr>condRepositoryOwner := [''myorg'']\<rparr>, Effect = EffectDeny\<rparr>"

definition allowMyrepo :: Rule where
  "allowMyrepo = \<lparr>Name = ''allow-myrepo'',
      Conditions = emptyConditions\<lparr>condRepository := [''myorg/myrepo'']\<rparr>, Effect = EffectAllow\<rparr>"

definition allowOtherrepo :: Rule where
  "allowOtherrepo = \<lparr>Name = ''allow-otherrepo'',
      Conditions = emptyConditions\<lparr>condRepository := [''myorg/otherrepo'']\<rparr>, Effect = EffectAllow\<rparr>"


text \<open>Rules for the statements below: a rule whose only condition is the pattern \<open>**\<close> on the
  environment, one with that pattern on the repository visibility, and the unnamed rule, the
  invalid effect and the rule without conditions of \<open>TestPolicy_Validate\<close>.\<close>

definition anyEnvironment :: Rule where
  "anyEnvironment = \<lparr>Name = ''any-environment'',
      Conditions = emptyConditions\<lparr>condEnvironment := [''**'']\<rparr>, Effect = EffectAllow\<rparr>"

definition anyVisibility :: Rule where
  "anyVisibility = \<lparr>Name = ''any-visibility'',
      Conditions = emptyConditions\<lparr>condRepositoryVisibility := [''**'']\<rparr>, Effect = EffectAllow\<rparr>"

definition unnamedRule :: Rule where
  "unnamedRule = \<lparr>Name = [],
      Conditions = emptyConditions\<lparr>condRepository := [''myorg/*'']\<rparr>, Effect = EffectAllow\<rparr>"

definition validPolicy :: Policy where
  "validPolicy = \<lparr>Rules = [unnamedRule], DefaultDeny = True\<rparr>"



text \<open>
  A fetcher whose only key was stored at time 0 with a cache duration of 50 milliseconds;
  a key-set entry of the shape the mock JWKS server of the tests serves, with the small
  modulus 3233 and the exponent 17; entries of another key type, with an undecodable modulus,
  with empty modulus and exponent, and an older entry under the same key identifier; worlds
  in which the endpoint is down or serves key sets; and the HS256 token of the test
  "wrong signing method".
\<close>

definition staleFetcher :: JWKSFetcher where
  "staleFetcher =
     \<lparr>url = ''https://example.com/jwks'', cacheDuration = 50000000,
      cache = [''test-key'' \<mapsto> \<lparr>pkN = 3233, pkE = 17\<rparr>], cachedAt = 0\<rparr>"

definition downWorld :: world where
  "downWorld =
     \<lparr>clock = (\<lambda>n. 100000000), ticks = 0,
      http = (\<lambda>u n. DoError ''connection refused''), refreshes = 0\<rparr>"

definition testJWK :: JWK where
  "testJWK = \<lparr>Kid = ''test-key'', Kty = ''RSA'', Alg = ''RS256'', Use = ''sig'',
               N = ''DKE'', E = ''EQ''\<rparr>"

definition upWorld :: world where
  "upWorld =
     \<lparr>clock = (\<lambda>n. 100000000 + int n), ticks = 0,
      http = (\<lambda>u n. Response 200 (Inr [testJWK])), refreshes = 0\<rparr>"

definition earlyWorld :: world where
  "earlyWorld =
     \<lparr>clock = (\<lambda>n. 10000000), ticks = 0,
      http = (\<lambda>u n. DoError ''connection refused''), refreshes = 0\<rparr>"

definition hsToken :: Token where
  "hsToken = \<lparr>Method = SigningMethodHMAC ''HS256'',
               Header = [''typ'' \<mapsto> HString ''JWT'', ''alg'' \<mapsto> HString ''HS256'',
                         ''kid'' \<mapsto> HString ''test-key'']\<rparr>"

definition ecJWK :: JWK where
  "ecJWK = \<lparr>Kid = ''ec-key'', Kty = ''EC'', Alg = ''ES256'', Use = ''sig'', N = ''DKE'', E = ''EQ''\<rparr>"

definition badJWK :: JWK where
  "badJWK = \<lparr>Kid = ''bad-key'', Kty = ''RSA'', Alg = ''RS256'', Use = ''sig'', N = ''D'', E = ''EQ''\<rparr>"

definition zeroJWK :: JWK where
  "zeroJWK = \<lparr>Kid = ''zero-key'', Kty = ''RSA'', Alg = ''RS256'', Use = ''sig'', N = [], E = []\<rparr>"

definition oldJWK :: JWK where
  "oldJWK = \<lparr>Kid = ''test-key'', Kty = ''RSA'', Alg = ''RS256'', Use = ''sig'', N = ''EQ'', E = ''EQ''\<rparr>"

definition mixedKeys :: "JWK list" where
  "mixedKeys = [zeroJWK, ecJWK, badJWK, oldJWK, testJWK]"

definition mixedWorld :: world where
  "mixedWorld =
     \<lparr>clock = (\<lambda>n. 100000000 + int n), ticks = 0,
      http = (\<lambda>u n. Response 200 (Inr mixedKeys)), refreshes = 0\<rparr>"

section \<open>Rule matching as the specification words it\<close>

text \<open>
  Section 3 of the specification: a condition is active iff its pattern list is non-empty,
  and a rule matches a claim set iff every active condition's pattern list contains at
  least one pattern matching the corresponding claim value.
\<close>

definition spec_condition :: "string list \<Rightarrow> string \<Rightarrow> bool" where
  "spec_condition patterns v = (patterns \<noteq> [] \<longrightarrow> list_ex (\<lambda>p. Match p v) patterns)"

definition spec_matches :: "Rule \<Rightarrow> GitHubActionsClaims \<Rightarrow> bool" where
  "spec_matches rule claims =
     (spec_condition (condRepository (Conditions rule)) (Repository claims) \<and>
      spec_condition (condRepositoryOwner (Conditions rule)) (RepositoryOwner claims) \<and>
      spec_condition (condRepositoryVisibility (Conditions rule)) (RepositoryVisibility claims) \<and>
      spec_condition (condRef (Conditions rule)) (Ref claims) \<and>
      spec_condition (condRefType (Conditions rule)) (RefType claims) \<and>
      spec_condition (condWorkflow (Conditions rule)) (Workflow claims) \<and>
      spec_condition (condEventName (Conditions rule)) (EventName claims) \<and>
      spec_condition (condActor (Conditions rule)) (Actor claims) \<and>
      spec_condition (condEnvironment (Conditions rule)) (Environment claims))"


section \<open>Vocabulary for the key cache\<close>

text \<open>A lookup is a hit when the key identifier is in the cache and the age of the cache is
  below the configured duration.\<close>

definition cacheHit :: "world \<Rightarrow> JWKSFetcher \<Rightarrow> string \<Rightarrow> bool" where
  "cacheHit w f kid =
     (cache f kid \<noteq> None \<and> fst (time_Since w (cachedAt f)) < cacheDuration f)"

text \<open>
  The entries of a key set that a refresh keeps, in the words of the claim: the key type is
  "RSA" and both \<open>n\<close> and \<open>e\<close> decode as unpadded base64url; and the key such an entry
  stands for: the modulus is the big-endian integer of the decoded \<open>n\<close>, the exponent that of
  the decoded \<open>e\<close>.
\<close>

definition accepted :: "JWK \<Rightarrow> bool" where
  "accepted jwk =
     (Kty jwk = ''RSA'' \<and> DecodeString (N jwk) \<noteq> None \<and> DecodeString (E jwk) \<noteq> None)"

definition keyOf :: "JWK \<Rightarrow> PublicKey" where
  "keyOf jwk =
     \<lparr>pkN = (case DecodeString (N jwk) of Some nBytes \<Rightarrow> SetBytes nBytes | None \<Rightarrow> 0),
      pkE = (case DecodeString (E jwk) of Some eBytes \<Rightarrow> Int64 (SetBytes eBytes) | None \<Rightarrow> 0)\<rparr>"


section \<open>The matcher: from cursors to pattern and value\<close>

lemma list_ex_shift:
  "list_ex (\<lambda>i. matchLoop q (drop i (b # v)) 0 0) [Suc lo ..< Suc n] =
   list_ex (\<lambda>i. matchLoop q (drop i v) 0 0) [lo ..< n]"
proof -
  have "(\<exists>i\<in>Suc ` {lo..<n}. matchLoop q (drop i (b # v)) 0 0) =
        (\<exists>i\<in>{lo..<n}. matchLoop q (drop i v) 0 0)"
    by (simp del: image_Suc_atLeastLessThan)
  then show ?thesis
    by (simp only: list_ex_iff set_upt image_Suc_atLeastLessThan)
qed

lemma matchLoop_end:
  "length p \<le> pi \<Longrightarrow> matchLoop p v pi vi = (length v \<le> vi)"
  by (subst matchLoop.simps) simp

lemma matchLoop_double:
  assumes "isDouble p pi"
  shows "matchLoop p v pi vi =
     (if length p \<le> Suc (Suc pi) then True
      else list_ex (\<lambda>i. matchLoop (drop (if p ! Suc (Suc pi) = CHR ''/'' then Suc (Suc (Suc pi)) else Suc (Suc pi)) p) (drop i v) 0 0)
             [vi ..< Suc (length v)])"
proof -
  from assms have a: "pi + 1 < length p" "take 2 (drop pi p) = ''**''"
    by (simp_all add: isDouble_def)
  then have b: "\<not> length p \<le> pi" by simp
  show ?thesis
    apply (subst matchLoop.simps)
    apply (simp only: a b Let_def)
    apply (simp del: upt_Suc)
    done
qed

lemma matchLoop_star:
  assumes "pi < length p" "\<not> isDouble p pi" "p ! pi = CHR ''*''"
  shows "matchLoop p v pi vi =
     (let rest = drop (pi + 1) p;
          suffix = (case IndexByte rest (CHR ''/'') of Some k \<Rightarrow> take k rest | None \<Rightarrow> rest);
          valueSlash = IndexByte (drop vi v) (CHR ''/'')
      in if suffix = [] then
           (case valueSlash of Some k \<Rightarrow> matchLoop rest (drop (vi + k) v) 0 0
            | None \<Rightarrow> matchLoop rest [] 0 0)
         else list_ex (\<lambda>i. matchLoop rest (drop i v) 0 0)
                [vi ..< Suc (case valueSlash of Some k \<Rightarrow> vi + k | None \<Rightarrow> length v)])"
proof -
  from assms have a: "\<not> (pi + 1 < length p \<and> take 2 (drop pi p) = ''**'')"
    by (simp add: isDouble_def)
  from assms have b: "\<not> length p \<le> pi" by simp
  show ?thesis
    apply (subst matchLoop.simps)
    apply (simp only: a b assms(1,3) Let_def if_False if_True simp_thms)
    done
qed

lemma matchLoop_lit:
  assumes "pi < length p" "p ! pi \<noteq> CHR ''*''"
  shows "matchLoop p v pi vi =
     (vi < length v \<and> p ! pi = v ! vi \<and> matchLoop p v (pi + 1) (vi + 1))"
proof -
  from assms have a: "\<not> (pi + 1 < length p \<and> take 2 (drop pi p) = ''**'')"
    by (auto simp: take_Suc_conv_app_nth numeral_2_eq_2 hd_drop_conv_nth dest!: arg_cong [where f = hd])
  from assms have b: "\<not> length p \<le> pi" by simp
  from assms have c: "drop pi p \<noteq> ''*''" "drop pi p \<noteq> ''**''" "drop pi p \<noteq> []"
    by (auto simp: hd_drop_conv_nth dest!: arg_cong [where f = hd])
  show ?thesis
    apply (subst matchLoop.simps)
    apply (simp only: a b c assms Let_def if_False if_True simp_thms)
    apply auto
    done
qed


lemma isDouble_shift: "isDouble (a # p) (Suc pi) = isDouble p pi"
  by (simp add: isDouble_def)

lemma matchLoop_shift:
  "matchLoop (a # p) (b # v) (Suc pi) (Suc vi) = matchLoop p v pi vi"
proof (induction p v pi vi rule: matchLoop.induct)
  case (1 p v pi vi)
  consider (e) "length p \<le> pi" | (d) "pi < length p" "isDouble p pi"
    | (s) "pi < length p" "\<not> isDouble p pi" "p ! pi = CHR ''*''"
    | (l) "pi < length p" "p ! pi \<noteq> CHR ''*''"
    by fastforce
  then show ?case
  proof cases
    case e
    then show ?thesis by (simp add: matchLoop_end)
  next
    case d
    then have d': "isDouble (a # p) (Suc pi)" by (simp add: isDouble_shift)
    show ?thesis
      by (simp add: matchLoop_double [OF d'] matchLoop_double [OF d(2)] list_ex_shift del: upt_Suc)
  next
    case s
    then have s': "Suc pi < length (a # p)" "\<not> isDouble (a # p) (Suc pi)" "(a # p) ! Suc pi = CHR ''*''"
      by (simp_all add: isDouble_shift)
    show ?thesis
      by (simp add: matchLoop_star [OF s'] matchLoop_star [OF s] list_ex_shift Let_def del: upt_Suc
            split: option.splits)
  next
    case l
    then have l': "Suc pi < length (a # p)" "(a # p) ! Suc pi \<noteq> CHR ''*''"
      by simp_all
    have nd: "\<not> (pi + 1 < length p \<and> take 2 (drop pi p) = ''**'')"
      using l by (auto simp: hd_drop_conv_nth dest!: arg_cong [where f = hd])
    have ih: "vi < length v \<Longrightarrow> p ! pi = v ! vi \<Longrightarrow>
       matchLoop (a # p) (b # v) (Suc (pi + 1)) (Suc (vi + 1)) = matchLoop p v (pi + 1) (vi + 1)"
      by (rule "1.IH"(5)) (use l nd in auto)
    show ?thesis
      using ih by (auto simp add: matchLoop_lit [OF l'] matchLoop_lit [OF l])
  qed
qed

lemma IndexByte_takeWhile:
  "(case IndexByte xs c of Some k \<Rightarrow> take k xs | None \<Rightarrow> xs) = takeWhile (\<lambda>x. x \<noteq> c) xs"
  by (induction xs) (auto split: option.splits)

lemma IndexByte_None: "IndexByte xs c = None \<longleftrightarrow> c \<notin> set xs"
  by (induction xs) (auto split: option.splits)

lemma IndexByte_Some:
  "IndexByte xs c = Some k \<longleftrightarrow> k < length xs \<and> xs ! k = c \<and> c \<notin> set (take k xs)"
proof (induction xs arbitrary: k)
  case Nil
  then show ?case by simp
next
  case (Cons x xs)
  show ?case
  proof (cases k)
    case 0
    then show ?thesis by (auto split: option.splits)
  next
    case (Suc j)
    then show ?thesis using Cons.IH [of j] by (auto split: option.splits)
  qed
qed

lemma matchInternal_Nil: "matchInternal [] v = (v = [])"
  by (simp add: matchInternal_def matchLoop_end)

lemma matchInternal_double_end: "matchInternal ''**'' v"
proof -
  have "isDouble ''**'' 0" by (simp add: isDouble_def)
  then show ?thesis
    by (simp add: matchInternal_def matchLoop_double)
qed

lemma matchInternal_double:
  assumes "p1 \<noteq> []"
  shows "matchInternal (CHR ''*'' # CHR ''*'' # p1) v =
     list_ex (\<lambda>i. matchInternal (if hd p1 = CHR ''/'' then tl p1 else p1) (drop i v))
       [0 ..< Suc (length v)]"
proof -
  have d: "isDouble (CHR ''*'' # CHR ''*'' # p1) 0" by (simp add: isDouble_def)
  from assms obtain c cs where p1: "p1 = c # cs" by (cases p1) auto
  show ?thesis
    unfolding matchInternal_def matchLoop_double [OF d]
    by (simp add: p1 del: upt_Suc)
qed

lemma matchInternal_star:
  assumes "p1 = [] \<or> hd p1 \<noteq> CHR ''*''"
  shows "matchInternal (CHR ''*'' # p1) v =
     (if takeWhile (\<lambda>c. c \<noteq> CHR ''/'') p1 = [] then
        (case IndexByte v (CHR ''/'') of
           Some k \<Rightarrow> matchInternal p1 (drop k v)
         | None \<Rightarrow> matchInternal p1 [])
      else list_ex (\<lambda>i. matchInternal p1 (drop i v))
             [0 ..< Suc (case IndexByte v (CHR ''/'') of Some k \<Rightarrow> k | None \<Rightarrow> length v)])"
proof -
  have nd: "\<not> isDouble (CHR ''*'' # p1) 0"
    using assms by (cases p1) (auto simp: isDouble_def)
  have s: "0 < length (CHR ''*'' # p1)" "(CHR ''*'' # p1) ! 0 = CHR ''*''"
    by simp_all
  show ?thesis
    unfolding matchInternal_def matchLoop_star [OF s(1) nd s(2)]
    by (simp add: Let_def IndexByte_takeWhile del: upt_Suc split: option.splits)
qed

lemma matchInternal_lit_Nil:
  "c \<noteq> CHR ''*'' \<Longrightarrow> matchInternal (c # p) [] = False"
  by (simp add: matchInternal_def matchLoop_lit)

lemma matchInternal_lit_Cons:
  "c \<noteq> CHR ''*'' \<Longrightarrow> matchInternal (c # p) (d # v) = (c = d \<and> matchInternal p v)"
  using matchLoop_shift [of c p d v 0 0]
  by (auto simp add: matchInternal_def matchLoop_lit)


lemma matchInternal_literal_prefix:
  "literal p \<Longrightarrow> matchInternal (p @ q) v = (\<exists>w. v = p @ w \<and> matchInternal q w)"
proof (induction p arbitrary: v)
  case Nil
  then show ?case by simp
next
  case (Cons c p)
  then have c: "c \<noteq> CHR ''*''" and p: "literal p"
    by (auto simp: literal_def)
  show ?case
  proof (cases v)
    case Nil
    then show ?thesis using c by (simp add: matchInternal_lit_Nil)
  next
    case (Cons d v')
    then show ?thesis
      using c Cons.IH [OF p, of v'] by (auto simp add: matchInternal_lit_Cons)
  qed
qed

lemma matchInternal_literal:
  "literal p \<Longrightarrow> matchInternal p v = (v = p)"
  using matchInternal_literal_prefix [of p "[]" v]
  by (auto simp: matchInternal_Nil)

lemma searchEnd_takeWhile:
  "(case IndexByte v c of Some k \<Rightarrow> k | None \<Rightarrow> length v) = length (takeWhile (\<lambda>x. x \<noteq> c) v)"
  by (induction v) (auto split: option.splits)

lemma le_takeWhile_iff:
  "i \<le> length (takeWhile (\<lambda>x. x \<noteq> c) v) \<longleftrightarrow> i \<le> length v \<and> c \<notin> set (take i v)"
proof (induction v arbitrary: i)
  case Nil
  then show ?case by simp
next
  case (Cons x v)
  then show ?case by (cases i) auto
qed

lemma matchInternal_star_literal:
  assumes "literal suf"
  shows "matchInternal (CHR ''*'' # suf) v = (\<exists>s. v = s @ suf \<and> CHR ''/'' \<notin> set s)"
proof -
  have hd: "suf = [] \<or> hd suf \<noteq> CHR ''*''"
    using assms by (cases suf) (auto simp: literal_def)
  have split_iff: "(\<exists>s. v = s @ suf \<and> CHR ''/'' \<notin> set s) \<longleftrightarrow>
        (\<exists>i. i \<le> length v \<and> CHR ''/'' \<notin> set (take i v) \<and> drop i v = suf)"
  proof
    assume "\<exists>s. v = s @ suf \<and> CHR ''/'' \<notin> set s"
    then obtain s where "v = s @ suf" "CHR ''/'' \<notin> set s" by blast
    then have "length s \<le> length v \<and> CHR ''/'' \<notin> set (take (length s) v) \<and> drop (length s) v = suf"
      by simp
    then show "\<exists>i. i \<le> length v \<and> CHR ''/'' \<notin> set (take i v) \<and> drop i v = suf" by blast
  next
    assume "\<exists>i. i \<le> length v \<and> CHR ''/'' \<notin> set (take i v) \<and> drop i v = suf"
    then obtain i where "CHR ''/'' \<notin> set (take i v)" "drop i v = suf" by blast
    then have "v = take i v @ suf \<and> CHR ''/'' \<notin> set (take i v)"
      by (metis append_take_drop_id)
    then show "\<exists>s. v = s @ suf \<and> CHR ''/'' \<notin> set s" by blast
  qed
  show ?thesis
  proof (cases "takeWhile (\<lambda>c. c \<noteq> CHR ''/'') suf = []")
    case False
    have "matchInternal (CHR ''*'' # suf) v =
          (\<exists>i. i \<le> length (takeWhile (\<lambda>x. x \<noteq> CHR ''/'') v) \<and> drop i v = suf)"
      using False
      by (auto simp add: matchInternal_star [OF hd] searchEnd_takeWhile list_ex_iff
            matchInternal_literal [OF assms] less_Suc_eq_le Bex_def simp del: upt_Suc)
    then show ?thesis
      unfolding split_iff le_takeWhile_iff by blast
  next
    case True
    then have suf: "suf = [] \<or> (\<exists>t. suf = CHR ''/'' # t)"
      by (cases suf) (auto split: if_splits)
    show ?thesis
    proof (cases "IndexByte v (CHR ''/'')")
      case None
      then have nov: "CHR ''/'' \<notin> set v" by (simp add: IndexByte_None)
      have "matchInternal (CHR ''*'' # suf) v = (suf = [])"
        using True None
        by (auto simp add: matchInternal_star [OF hd] matchInternal_literal [OF assms])
      moreover have "(\<exists>s. v = s @ suf \<and> CHR ''/'' \<notin> set s) = (suf = [])"
        using suf nov by auto
      ultimately show ?thesis by simp
    next
      case (Some k)
      then have k: "k < length v" "v ! k = CHR ''/''" "CHR ''/'' \<notin> set (take k v)"
        by (simp_all add: IndexByte_Some)
      have m: "matchInternal (CHR ''*'' # suf) v = (drop k v = suf)"
        using True Some
        by (simp add: matchInternal_star [OF hd] matchInternal_literal [OF assms])
      show ?thesis
      proof
        assume "matchInternal (CHR ''*'' # suf) v"
        then have "drop k v = suf" using m by simp
        then have "v = take k v @ suf" by (metis append_take_drop_id)
        then show "\<exists>s. v = s @ suf \<and> CHR ''/'' \<notin> set s" using k(3) by blast
      next
        assume "\<exists>s. v = s @ suf \<and> CHR ''/'' \<notin> set s"
        then obtain s where s: "v = s @ suf" "CHR ''/'' \<notin> set s" by blast
        have "k \<ge> length s"
        proof (rule ccontr)
          assume "\<not> length s \<le> k"
          then have "v ! k = s ! k" "k < length s" using s(1) by (simp_all add: nth_append)
          then show False using k(2) s(2) by (metis nth_mem)
        qed
        moreover have "k \<le> length s"
        proof (rule ccontr)
          assume a: "\<not> k \<le> length s"
          from k(1) s(1) a have "suf \<noteq> []" by auto
          with suf obtain t where "suf = CHR ''/'' # t" by blast
          with s(1) have "v ! length s = CHR ''/''" by simp
          moreover have "length s < k" using a by simp
          ultimately have "CHR ''/'' \<in> set (take k v)"
            using k(1) by (metis in_set_conv_nth length_take min.absorb2 less_imp_le nth_take)
          then show False using k(3) by simp
        qed
        ultimately have "k = length s" by simp
        then have "drop k v = suf" using s(1) by simp
        then show "matchInternal (CHR ''*'' # suf) v" using m by simp
      qed
    qed
  qed
qed

lemma matchInternal_double_literal:
  assumes "literal suf"
  shows "matchInternal (''**'' @ suf) (s @ suf)"
proof (cases suf)
  case Nil
  then show ?thesis using matchInternal_double_end by simp
next
  case (Cons c t)
  let ?p2 = "if hd suf = CHR ''/'' then tl suf else suf"
  let ?i = "if hd suf = CHR ''/'' then Suc (length s) else length s"
  have lit: "literal ?p2"
    using assms Cons by (auto simp: literal_def)
  have d: "drop ?i (s @ suf) = ?p2"
    using Cons by (simp add: drop_Suc)
  have "?i < Suc (length (s @ suf))"
    using Cons by simp
  then have i: "?i \<in> set [0 ..< Suc (length (s @ suf))]"
    by (simp only: set_upt atLeastLessThan_iff le0 simp_thms)
  have "matchInternal ?p2 (drop ?i (s @ suf))"
    unfolding d by (simp only: matchInternal_literal [OF lit])
  with i have "list_ex (\<lambda>i. matchInternal ?p2 (drop i (s @ suf))) [0 ..< Suc (length (s @ suf))]"
    unfolding list_ex_iff by blast
  moreover have "suf \<noteq> []" using Cons by simp
  ultimately show ?thesis
    using matchInternal_double [of suf "s @ suf"] by simp
qed


lemma split_at_iff:
  "(\<exists>s w. v = s @ w \<and> P s w) \<longleftrightarrow> (\<exists>i\<le>length v. P (take i v) (drop i v))"
proof
  assume "\<exists>s w. v = s @ w \<and> P s w"
  then obtain s w where "v = s @ w" "P s w" by blast
  then have "length s \<le> length v \<and> P (take (length s) v) (drop (length s) v)" by simp
  then show "\<exists>i\<le>length v. P (take i v) (drop i v)" by blast
next
  assume "\<exists>i\<le>length v. P (take i v) (drop i v)"
  then obtain i where "P (take i v) (drop i v)" by blast
  moreover have "v = take i v @ drop i v" by simp
  ultimately show "\<exists>s w. v = s @ w \<and> P s w" by blast
qed

lemma list_ex_upto: "list_ex P [0 ..< Suc n] \<longleftrightarrow> (\<exists>i\<le>n. P i)"
  by (auto simp add: list_ex_iff less_Suc_eq_le simp del: upt_Suc)

lemma matchInternal_lit_spans:
  assumes "c \<noteq> CHR ''*''"
  shows "matchInternal (c # p) v = (\<exists>w. v = c # w \<and> matchInternal p w)"
  using assms by (cases v) (auto simp: matchInternal_lit_Nil matchInternal_lit_Cons)

lemma matchInternal_double_spans:
  "matchInternal (CHR ''*'' # CHR ''*'' # q) v =
     (\<exists>s w. v = s @ w \<and>
        matchInternal (if q \<noteq> [] \<and> hd q = CHR ''/'' then tl q else q) w)"
proof (cases q)
  case Nil
  have "matchInternal ''**'' v" by (rule matchInternal_double_end)
  moreover have "\<exists>s w. v = s @ w \<and> matchInternal [] w"
    using matchInternal_Nil by (metis append_Nil2)
  ultimately show ?thesis using Nil by simp
next
  case (Cons a q')
  then have ne: "q \<noteq> []" by simp
  show ?thesis
    unfolding matchInternal_double [OF ne] list_ex_upto
      split_at_iff [of v "\<lambda>s w. matchInternal (if q \<noteq> [] \<and> hd q = CHR ''/'' then tl q else q) w"]
    using ne by simp
qed

lemma matchInternal_star_spans:
  assumes "p1 = [] \<or> hd p1 \<noteq> CHR ''*''"
  shows "matchInternal (CHR ''*'' # p1) v =
     (\<exists>s w. v = s @ w \<and> CHR ''/'' \<notin> set s \<and> matchInternal p1 w)"
proof -
  have goal_iff: "(\<exists>s w. v = s @ w \<and> CHR ''/'' \<notin> set s \<and> matchInternal p1 w) \<longleftrightarrow>
        (\<exists>i\<le>length v. CHR ''/'' \<notin> set (take i v) \<and> matchInternal p1 (drop i v))"
    by (rule split_at_iff [of v "\<lambda>s w. CHR ''/'' \<notin> set s \<and> matchInternal p1 w"])
  show ?thesis
  proof (cases "takeWhile (\<lambda>c. c \<noteq> CHR ''/'') p1 = []")
    case False
    have "matchInternal (CHR ''*'' # p1) v =
          (\<exists>i\<le>length (takeWhile (\<lambda>x. x \<noteq> CHR ''/'') v). matchInternal p1 (drop i v))"
      using False
      by (simp add: matchInternal_star [OF assms] searchEnd_takeWhile list_ex_upto del: upt_Suc)
    then show ?thesis
      unfolding goal_iff le_takeWhile_iff by blast
  next
    case True
    then have p1: "p1 = [] \<or> (\<exists>r. p1 = CHR ''/'' # r)"
      by (cases p1) (auto split: if_splits)
    have starts: "w \<noteq> [] \<and> hd w = CHR ''/''" if "matchInternal p1 w" "p1 \<noteq> []" for w
    proof -
      from p1 that(2) obtain r where "p1 = CHR ''/'' # r" by blast
      with that(1) show ?thesis
        by (auto simp: matchInternal_lit_spans)
    qed
    show ?thesis
    proof (cases "IndexByte v (CHR ''/'')")
      case None
      then have nov: "CHR ''/'' \<notin> set v" by (simp add: IndexByte_None)
      have m: "matchInternal (CHR ''*'' # p1) v = matchInternal p1 []"
        using True None by (simp add: matchInternal_star [OF assms])
      show ?thesis
      proof
        assume "matchInternal (CHR ''*'' # p1) v"
        then have "matchInternal p1 []" using m by simp
        then have "v = v @ [] \<and> CHR ''/'' \<notin> set v \<and> matchInternal p1 []"
          using nov by simp
        then show "\<exists>s w. v = s @ w \<and> CHR ''/'' \<notin> set s \<and> matchInternal p1 w" by blast
      next
        assume "\<exists>s w. v = s @ w \<and> CHR ''/'' \<notin> set s \<and> matchInternal p1 w"
        then obtain s w where sw: "v = s @ w" "matchInternal p1 w" by blast
        have "w = []"
        proof (cases "p1 = []")
          case True
          then show ?thesis using sw(2) by (simp add: matchInternal_Nil)
        next
          case False
          from starts [OF sw(2) False] have "CHR ''/'' \<in> set w"
            by (cases w) auto
          then show ?thesis using nov sw(1) by simp
        qed
        then show "matchInternal (CHR ''*'' # p1) v" using m sw(2) by simp
      qed
    next
      case (Some k)
      then have k: "k < length v" "v ! k = CHR ''/''" "CHR ''/'' \<notin> set (take k v)"
        by (simp_all add: IndexByte_Some)
      have m: "matchInternal (CHR ''*'' # p1) v = matchInternal p1 (drop k v)"
        using True Some by (simp add: matchInternal_star [OF assms])
      show ?thesis
      proof
        assume "matchInternal (CHR ''*'' # p1) v"
        then have "matchInternal p1 (drop k v)" using m by simp
        moreover have "v = take k v @ drop k v" by simp
        ultimately show "\<exists>s w. v = s @ w \<and> CHR ''/'' \<notin> set s \<and> matchInternal p1 w"
          using k(3) by blast
      next
        assume "\<exists>s w. v = s @ w \<and> CHR ''/'' \<notin> set s \<and> matchInternal p1 w"
        then obtain s w where sw: "v = s @ w" "CHR ''/'' \<notin> set s" "matchInternal p1 w"
          by blast
        have ge: "length s \<le> k"
        proof (rule ccontr)
          assume "\<not> length s \<le> k"
          then have "v ! k = s ! k" "k < length s" using sw(1) by (simp_all add: nth_append)
          then show False using k(2) sw(2) by (metis nth_mem)
        qed
        have ne: "p1 \<noteq> []"
        proof
          assume "p1 = []"
          then have "w = []" using sw(3) by (simp add: matchInternal_Nil)
          then have "length s = length v" using sw(1) by simp
          then show False using ge k(1) by simp
        qed
        from starts [OF sw(3) ne] have w: "w \<noteq> []" "hd w = CHR ''/''" by simp_all
        have "k \<le> length s"
        proof (rule ccontr)
          assume a: "\<not> k \<le> length s"
          have "v ! length s = CHR ''/''"
            using sw(1) w by (cases w) (simp_all add: nth_append)
          moreover have "length s < k" using a by simp
          ultimately have "CHR ''/'' \<in> set (take k v)"
            using k(1) by (metis in_set_conv_nth length_take min.absorb2 less_imp_le nth_take)
          then show False using k(3) by simp
        qed
        with ge have "k = length s" by simp
        then have "drop k v = w" using sw(1) by simp
        then show "matchInternal (CHR ''*'' # p1) v" using m sw(3) by simp
      qed
    qed
  qed
qed

lemma spans_Cons:
  "(\<exists>spans. list_all2 span_ok (t # ts) spans \<and> concat spans = v) \<longleftrightarrow>
   (\<exists>s w. v = s @ w \<and> span_ok t s \<and> (\<exists>spans. list_all2 span_ok ts spans \<and> concat spans = w))"
proof
  assume "\<exists>spans. list_all2 span_ok (t # ts) spans \<and> concat spans = v"
  then obtain spans where a: "list_all2 span_ok (t # ts) spans" "concat spans = v" by blast
  from a(1) obtain s ss where "spans = s # ss" "span_ok t s" "list_all2 span_ok ts ss"
    by (auto simp: list_all2_Cons1)
  with a(2) have "v = s @ concat ss \<and> span_ok t s \<and> list_all2 span_ok ts ss \<and> concat ss = concat ss"
    by simp
  then show "\<exists>s w. v = s @ w \<and> span_ok t s \<and> (\<exists>spans. list_all2 span_ok ts spans \<and> concat spans = w)"
    by blast
next
  assume "\<exists>s w. v = s @ w \<and> span_ok t s \<and> (\<exists>spans. list_all2 span_ok ts spans \<and> concat spans = w)"
  then obtain s w ss where "v = s @ w" "span_ok t s" "list_all2 span_ok ts ss" "concat ss = w"
    by blast
  then have "list_all2 span_ok (t # ts) (s # ss) \<and> concat (s # ss) = v" by simp
  then show "\<exists>spans. list_all2 span_ok (t # ts) spans \<and> concat spans = v" by blast
qed

lemma matchInternal_spans:
  "matchInternal p v = (\<exists>spans. list_all2 span_ok (tokens p) spans \<and> concat spans = v)"
proof (induction p arbitrary: v rule: tokens.induct)
  case 1
  show ?case by (auto simp add: matchInternal_Nil)
next
  case (2 c p)
  consider (lit) "c \<noteq> CHR ''*''"
    | (dbl) "c = CHR ''*''" "p \<noteq> [] \<and> hd p = CHR ''*''"
    | (star) "c = CHR ''*''" "\<not> (p \<noteq> [] \<and> hd p = CHR ''*'')"
    by blast
  then show ?case
  proof cases
    case lit
    have t: "tokens (c # p) = Lit c # tokens p" using lit by simp
    have ih: "\<And>w. matchInternal p w = (\<exists>spans. list_all2 span_ok (tokens p) spans \<and> concat spans = w)"
      using "2.IH"(1) lit by simp
    show ?thesis
      unfolding t spans_Cons matchInternal_lit_spans [OF lit] ih
      by auto
  next
    case dbl
    let ?q = "if tl p \<noteq> [] \<and> hd (tl p) = CHR ''/'' then tl (tl p) else tl p"
    have t: "tokens (c # p) = DoubleStar # tokens ?q" using dbl by simp
    have ih: "\<And>w. matchInternal ?q w = (\<exists>spans. list_all2 span_ok (tokens ?q) spans \<and> concat spans = w)"
      using "2.IH"(2) dbl by simp
    from dbl obtain q where p: "p = CHR ''*'' # q" by (cases p) auto
    have m: "matchInternal (c # p) v = (\<exists>s w. v = s @ w \<and> matchInternal ?q w)"
      using matchInternal_double_spans [of q v] dbl(1) p by simp
    show ?thesis
      unfolding t spans_Cons m ih by simp
  next
    case star
    have t: "tokens (CHR ''*'' # p) = Star # tokens p" using star by simp
    have ih: "\<And>w. matchInternal p w = (\<exists>spans. list_all2 span_ok (tokens p) spans \<and> concat spans = w)"
      using "2.IH"(3) star by simp
    have a: "p = [] \<or> hd p \<noteq> CHR ''*''" using star(2) by blast
    have m: "matchInternal (CHR ''*'' # p) v =
        (\<exists>s w. v = s @ w \<and> CHR ''/'' \<notin> set s \<and> matchInternal p w)"
      by (rule matchInternal_star_spans [OF a])
    show ?thesis
      unfolding star(1) t spans_Cons m ih by simp
  qed
qed

lemma tmatch_spans:
  "tmatch ts v = (\<exists>spans. list_all2 span_ok ts spans \<and> concat spans = v)"
proof (induction ts arbitrary: v)
  case Nil
  show ?case by auto
next
  case (Cons t ts)
  have "tmatch (t # ts) v = (\<exists>i\<le>length v. span_ok t (take i v) \<and> tmatch ts (drop i v))"
    by (simp add: list_ex_upto del: upt_Suc)
  also have "\<dots> = (\<exists>s w. v = s @ w \<and> span_ok t s \<and> tmatch ts w)"
    by (rule split_at_iff [of v "\<lambda>s w. span_ok t s \<and> tmatch ts w", symmetric])
  finally show ?case
    unfolding spans_Cons Cons.IH .
qed

text \<open>
  C7.  \<open>Match "*" v\<close> holds iff \<open>v\<close> contains no \<open>/\<close>, and \<open>Match "**" v\<close> holds for every
  \<open>v\<close>, the empty string included.  More generally, for every pattern and every value, the
  pattern matches the value iff the value can be cut into one span per token of the pattern,
  a literal character standing for itself, every \<open>*\<close> standing for a span without \<open>/\<close> and
  every \<open>**\<close> for any span: a \<open>*\<close> never stands for a span containing \<open>/\<close>, and a \<open>**\<close>
  may.  In particular, between a literal prefix and a literal suffix \<open>*\<close> matches exactly the
  spans without \<open>/\<close>, and \<open>**\<close> matches every span.
\<close>

theorem Match_wildcards:
  "(Match ''*'' v \<longleftrightarrow> CHR ''/'' \<notin> set v)
   \<and> Match ''**'' v
   \<and> (Match p v \<longleftrightarrow> (\<exists>spans. list_all2 span_ok (tokens p) spans \<and> concat spans = v))
   \<and> (literal pre \<and> literal suf \<longrightarrow>
        (Match (pre @ ''*'' @ suf) v \<longleftrightarrow> (\<exists>s. v = pre @ s @ suf \<and> CHR ''/'' \<notin> set s)))
   \<and> (literal pre \<and> literal suf \<longrightarrow> Match (pre @ ''**'' @ suf) (pre @ s @ suf))"
proof (intro conjI impI)
  have "literal []" by (simp add: literal_def)
  then show "Match ''*'' v \<longleftrightarrow> CHR ''/'' \<notin> set v"
    using matchInternal_star_literal [of "[]" v] by (simp add: Match_def)
next
  show "Match ''**'' v"
    by (simp add: Match_def matchInternal_double_end)
next
  show "Match p v \<longleftrightarrow> (\<exists>spans. list_all2 span_ok (tokens p) spans \<and> concat spans = v)"
    unfolding Match_def by (rule matchInternal_spans)
next
  assume l: "literal pre \<and> literal suf"
  then have "matchInternal (pre @ ''*'' @ suf) v =
      (\<exists>w. v = pre @ w \<and> matchInternal (CHR ''*'' # suf) w)"
    using matchInternal_literal_prefix [of pre "''*'' @ suf" v] by simp
  also have "\<dots> = (\<exists>w. v = pre @ w \<and> (\<exists>s. w = s @ suf \<and> CHR ''/'' \<notin> set s))"
    using l by (simp add: matchInternal_star_literal)
  also have "\<dots> = (\<exists>s. v = pre @ s @ suf \<and> CHR ''/'' \<notin> set s)"
    by blast
  finally show "Match (pre @ ''*'' @ suf) v \<longleftrightarrow> (\<exists>s. v = pre @ s @ suf \<and> CHR ''/'' \<notin> set s)"
    by (simp add: Match_def)
next
  assume l: "literal pre \<and> literal suf"
  then have "matchInternal (pre @ ''**'' @ suf) (pre @ s @ suf) =
      (\<exists>w. pre @ s @ suf = pre @ w \<and> matchInternal (''**'' @ suf) w)"
    using matchInternal_literal_prefix [of pre "''**'' @ suf" "pre @ s @ suf"] by simp
  moreover have "matchInternal (''**'' @ suf) (s @ suf)"
    using l by (simp only: matchInternal_double_literal)
  ultimately show "Match (pre @ ''**'' @ suf) (pre @ s @ suf)"
    unfolding Match_def by blast
qed

theorem Match_wildcards_witness:
  "literal ''myorg/'' \<and> literal ''/ci.yml''
   \<and> Match ''myorg/*'' ''myorg/myrepo''
   \<and> \<not> Match ''myorg/*'' ''myorg/myrepo/extra''
   \<and> Match ''myorg/**/ci.yml'' ''myorg/myrepo/.github/workflows/ci.yml''
   \<and> Match ''*/workflows/*.yml'' ''.github/workflows/ci.yml''
   \<and> \<not> Match ''*/*/*'' ''a/b/c/d/e''
   \<and> \<not> Match ''a/*/b'' ''a/x/y/b''
   \<and> Match ''a/**/b'' ''a/x/y/b''"
proof -
  have l: "literal ''myorg/''" "literal ''/ci.yml''" "literal []"
    by (simp_all add: literal_def)
  from Match_wildcards [where v = "''myorg/myrepo''" and pre = "''myorg/''" and suf = "[]"]
  have "literal ''myorg/'' \<and> literal [] \<longrightarrow>
      (Match (''myorg/'' @ ''*'' @ []) ''myorg/myrepo'' \<longleftrightarrow>
        (\<exists>s. ''myorg/myrepo'' = ''myorg/'' @ s @ [] \<and> CHR ''/'' \<notin> set s))"
    by blast
  with l have a: "Match (''myorg/'' @ ''*'' @ []) ''myorg/myrepo''"
    by simp
  from Match_wildcards [where v = "''myorg/myrepo/extra''" and pre = "''myorg/''" and suf = "[]"]
  have "literal ''myorg/'' \<and> literal [] \<longrightarrow>
      (Match (''myorg/'' @ ''*'' @ []) ''myorg/myrepo/extra'' \<longleftrightarrow>
        (\<exists>s. ''myorg/myrepo/extra'' = ''myorg/'' @ s @ [] \<and> CHR ''/'' \<notin> set s))"
    by blast
  with l have b: "\<not> Match (''myorg/'' @ ''*'' @ []) ''myorg/myrepo/extra''"
    by simp
  have c: "Match (''myorg/'' @ ''**'' @ ''/ci.yml'') (''myorg/'' @ ''myrepo/.github/workflows'' @ ''/ci.yml'')"
    using Match_wildcards [where pre = "''myorg/''" and suf = "''/ci.yml''"
        and s = "''myrepo/.github/workflows''"] l
    by blast
  have t1: "tmatch (tokens ''*/workflows/*.yml'') ''.github/workflows/ci.yml''"
    by code_simp
  have t2: "\<not> tmatch (tokens ''*/*/*'') ''a/b/c/d/e''"
    by code_simp
  have t3: "\<not> tmatch (tokens ''a/*/b'') ''a/x/y/b''"
    by code_simp
  have t4: "tmatch (tokens ''a/**/b'') ''a/x/y/b''"
    by code_simp
  have d: "Match ''*/workflows/*.yml'' ''.github/workflows/ci.yml''"
    using Match_wildcards [where p = "''*/workflows/*.yml''" and v = "''.github/workflows/ci.yml''"]
      t1 [unfolded tmatch_spans]
    by blast
  have e: "\<not> Match ''*/*/*'' ''a/b/c/d/e''"
    using Match_wildcards [where p = "''*/*/*''" and v = "''a/b/c/d/e''"] t2 [unfolded tmatch_spans]
    by blast
  have f: "\<not> Match ''a/*/b'' ''a/x/y/b''"
    using Match_wildcards [where p = "''a/*/b''" and v = "''a/x/y/b''"] t3 [unfolded tmatch_spans]
    by blast
  have g: "Match ''a/**/b'' ''a/x/y/b''"
    using Match_wildcards [where p = "''a/**/b''" and v = "''a/x/y/b''"] t4 [unfolded tmatch_spans]
    by blast
  show ?thesis
    using l a b c d e f g by simp
qed


section \<open>The policy engine\<close>

lemma Evaluate_rules_first:
  assumes "\<forall>q\<in>set pre. \<not> matchesRule q c" "matchesRule r c"
  shows "Evaluate_rules (pre @ r # post) c =
     Some \<lparr>Allowed = (Effect r = EffectAllow), MatchedRule = Name r,
           EvalReason = (if Name r \<noteq> [] then ''rule: '' @ Name r else ''default'')\<rparr>"
  using assms by (induction pre) simp_all

lemma Evaluate_rules_none:
  "Evaluate_rules rules c = None \<longleftrightarrow> (\<forall>q\<in>set rules. \<not> matchesRule q c)"
  by (induction rules) (simp_all add: Let_def)

text \<open>
  C1.  Evaluation follows the declared order.  A nil policy allows, with the reason
  "no policy configured".  Otherwise the rules are scanned in declaration order and the first
  rule that matches decides: the result is allowed exactly when that rule's effect is
  "allow", and it carries that rule's name.  When no rule matches, the default-deny flag
  decides, with the reasons "default deny policy" and "default allow (no matching rules)".
  In particular, when a deny rule and a later allow rule both match, and no rule before the
  deny rule does, the result is deny with the deny rule's name.
\<close>

theorem Evaluate_order:
  "Evaluate None c = \<lparr>Allowed = True, MatchedRule = [], EvalReason = ''no policy configured''\<rparr>
   \<and> (\<forall>pre r post. Rules p = pre @ r # post \<and> (\<forall>q\<in>set pre. \<not> matchesRule q c) \<and> matchesRule r c
        \<longrightarrow> Allowed (Evaluate (Some p) c) = (Effect r = ''allow'')
            \<and> MatchedRule (Evaluate (Some p) c) = Name r)
   \<and> ((\<forall>q\<in>set (Rules p). \<not> matchesRule q c)
        \<longrightarrow> Evaluate (Some p) c =
              (if DefaultDeny p
               then \<lparr>Allowed = False, MatchedRule = [], EvalReason = ''default deny policy''\<rparr>
               else \<lparr>Allowed = True, MatchedRule = [],
                      EvalReason = ''default allow (no matching rules)''\<rparr>))
   \<and> (\<forall>pre r1 mid r2 post.
          Rules p = pre @ r1 # mid @ r2 # post \<and> (\<forall>q\<in>set pre. \<not> matchesRule q c)
          \<and> Effect r1 = ''deny'' \<and> Effect r2 = ''allow'' \<and> matchesRule r1 c \<and> matchesRule r2 c
        \<longrightarrow> \<not> Allowed (Evaluate (Some p) c) \<and> MatchedRule (Evaluate (Some p) c) = Name r1)"
proof (intro conjI allI impI)
  show "Evaluate None c = \<lparr>Allowed = True, MatchedRule = [], EvalReason = ''no policy configured''\<rparr>"
    by (simp add: Evaluate_def)
next
  fix pre r post
  assume a: "Rules p = pre @ r # post \<and> (\<forall>q\<in>set pre. \<not> matchesRule q c) \<and> matchesRule r c"
  then have e: "Evaluate_rules (Rules p) c =
     Some \<lparr>Allowed = (Effect r = EffectAllow), MatchedRule = Name r,
           EvalReason = (if Name r \<noteq> [] then ''rule: '' @ Name r else ''default'')\<rparr>"
    using Evaluate_rules_first [of pre c r post] by simp
  show "Allowed (Evaluate (Some p) c) = (Effect r = ''allow'')"
    by (simp add: Evaluate_def e EffectAllow_def)
  show "MatchedRule (Evaluate (Some p) c) = Name r"
    by (simp add: Evaluate_def e)
next
  assume "\<forall>q\<in>set (Rules p). \<not> matchesRule q c"
  then have "Evaluate_rules (Rules p) c = None"
    by (simp add: Evaluate_rules_none)
  then show "Evaluate (Some p) c =
              (if DefaultDeny p
               then \<lparr>Allowed = False, MatchedRule = [], EvalReason = ''default deny policy''\<rparr>
               else \<lparr>Allowed = True, MatchedRule = [],
                      EvalReason = ''default allow (no matching rules)''\<rparr>)"
    by (simp add: Evaluate_def)
next
  fix pre r1 mid r2 post
  assume a: "Rules p = pre @ r1 # mid @ r2 # post \<and> (\<forall>q\<in>set pre. \<not> matchesRule q c)
          \<and> Effect r1 = ''deny'' \<and> Effect r2 = ''allow'' \<and> matchesRule r1 c \<and> matchesRule r2 c"
  then have e: "Evaluate_rules (Rules p) c =
     Some \<lparr>Allowed = (Effect r1 = EffectAllow), MatchedRule = Name r1,
           EvalReason = (if Name r1 \<noteq> [] then ''rule: '' @ Name r1 else ''default'')\<rparr>"
    using Evaluate_rules_first [of pre c r1 "mid @ r2 # post"] by simp
  from a have d: "Effect r1 = ''deny''" by simp
  show "\<not> Allowed (Evaluate (Some p) c)"
    by (simp add: Evaluate_def e EffectAllow_def d)
  show "MatchedRule (Evaluate (Some p) c) = Name r1"
    by (simp add: Evaluate_def e)
qed

theorem Evaluate_order_witness:
  "\<not> Allowed (Evaluate (Some \<lparr>Rules = [denyAll, allowMyrepo], DefaultDeny = True\<rparr>) baseClaims)
   \<and> MatchedRule (Evaluate (Some \<lparr>Rules = [denyAll, allowMyrepo], DefaultDeny = True\<rparr>) baseClaims)
       = ''deny-all''
   \<and> Allowed (Evaluate (Some \<lparr>Rules = [allowOtherrepo, allowMyrepo], DefaultDeny = True\<rparr>) baseClaims)
   \<and> Evaluate (Some \<lparr>Rules = [allowOtherrepo], DefaultDeny = True\<rparr>) baseClaims
       = \<lparr>Allowed = False, MatchedRule = [], EvalReason = ''default deny policy''\<rparr>"
proof -
  let ?p1 = "\<lparr>Rules = [denyAll, allowMyrepo], DefaultDeny = True\<rparr>"
  let ?p2 = "\<lparr>Rules = [allowOtherrepo, allowMyrepo], DefaultDeny = True\<rparr>"
  let ?p3 = "\<lparr>Rules = [allowOtherrepo], DefaultDeny = True\<rparr>"
  have m1: "matchesRule denyAll baseClaims" by code_simp
  have m2: "matchesRule allowMyrepo baseClaims" by code_simp
  have m3: "\<not> matchesRule allowOtherrepo baseClaims" by code_simp
  have h1: "Rules ?p1 = [] @ denyAll # [] @ allowMyrepo # [] \<and> (\<forall>q\<in>set []. \<not> matchesRule q baseClaims)
          \<and> Effect denyAll = ''deny'' \<and> Effect allowMyrepo = ''allow''
          \<and> matchesRule denyAll baseClaims \<and> matchesRule allowMyrepo baseClaims"
    using m1 m2 by (simp add: denyAll_def allowMyrepo_def EffectDeny_def EffectAllow_def)
  have h2: "Rules ?p2 = [allowOtherrepo] @ allowMyrepo # [] \<and>
      (\<forall>q\<in>set [allowOtherrepo]. \<not> matchesRule q baseClaims) \<and> matchesRule allowMyrepo baseClaims"
    using m2 m3 by simp
  have h3: "\<forall>q\<in>set (Rules ?p3). \<not> matchesRule q baseClaims"
    using m3 by simp
  have e2: "Effect allowMyrepo = ''allow''"
    by (simp add: allowMyrepo_def EffectAllow_def)
  from Evaluate_order [of baseClaims ?p1] h1
  have r1: "\<not> Allowed (Evaluate (Some ?p1) baseClaims)
            \<and> MatchedRule (Evaluate (Some ?p1) baseClaims) = Name denyAll"
    by blast
  from Evaluate_order [of baseClaims ?p2] h2
  have r2: "Allowed (Evaluate (Some ?p2) baseClaims) = (Effect allowMyrepo = ''allow'')"
    by blast
  from Evaluate_order [of baseClaims ?p3] h3
  have r3: "Evaluate (Some ?p3) baseClaims =
      \<lparr>Allowed = False, MatchedRule = [], EvalReason = ''default deny policy''\<rparr>"
    by simp
  show ?thesis
    using r1 r2 r3 e2 by (simp add: denyAll_def)
qed

lemma MatchAny_list_ex: "MatchAny ps v = list_ex (\<lambda>p. Match p v) ps"
  by (induction ps) auto

text \<open>
  C2, as the claim states it, fails: the rule \<open>anyEnvironment\<close> has one active condition, whose
  pattern \<open>**\<close> matches the empty environment of \<open>baseClaims\<close>, yet the rule does not match.
\<close>

theorem matchesRule_spec_counterexample:
  "spec_matches anyEnvironment baseClaims \<and> \<not> matchesRule anyEnvironment baseClaims"
proof
  show "spec_matches anyEnvironment baseClaims" by code_simp
  show "\<not> matchesRule anyEnvironment baseClaims" by code_simp
qed

text \<open>
  C2, amended.  A rule matches a claim set iff every active condition has at least one
  pattern in its list that matches the corresponding claim value (AND across the nine
  conditions, OR within a pattern list, no constraint from an empty list), and, when the
  environment condition is active, the environment claim is moreover not empty.
\<close>

theorem matchesRule_conditions:
  "matchesRule rule claims \<longleftrightarrow>
     spec_condition (condRepository (Conditions rule)) (Repository claims) \<and>
     spec_condition (condRepositoryOwner (Conditions rule)) (RepositoryOwner claims) \<and>
     spec_condition (condRepositoryVisibility (Conditions rule)) (RepositoryVisibility claims) \<and>
     spec_condition (condRef (Conditions rule)) (Ref claims) \<and>
     spec_condition (condRefType (Conditions rule)) (RefType claims) \<and>
     spec_condition (condWorkflow (Conditions rule)) (Workflow claims) \<and>
     spec_condition (condEventName (Conditions rule)) (EventName claims) \<and>
     spec_condition (condActor (Conditions rule)) (Actor claims) \<and>
     (condEnvironment (Conditions rule) \<noteq> [] \<longrightarrow>
        Environment claims \<noteq> [] \<and>
        list_ex (\<lambda>p. Match p (Environment claims)) (condEnvironment (Conditions rule)))"
proof -
  have step: "\<And>a b R. (if a \<and> \<not> b then False else R) = ((a \<longrightarrow> b) \<and> R)"
    by simp
  have final: "\<And>a e b. (if a then (if e then False else if \<not> b then False else True) else True)
      = (a \<longrightarrow> \<not> e \<and> b)"
    by simp
  show ?thesis
    unfolding matchesRule_def Let_def spec_condition_def MatchAny_list_ex length_greater_0_conv
      step final
    by (rule refl)
qed

theorem matchesRule_conditions_witness:
  "condRepository (Conditions allowMyrepo) \<noteq> [] \<and> matchesRule allowMyrepo baseClaims
   \<and> condEnvironment (Conditions anyEnvironment) \<noteq> [] \<and> \<not> matchesRule anyEnvironment baseClaims"
proof -
  have a: "condRepository (Conditions allowMyrepo) \<noteq> []"
    by (simp add: allowMyrepo_def emptyConditions_def)
  have b: "condEnvironment (Conditions anyEnvironment) \<noteq> []"
    by (simp add: anyEnvironment_def emptyConditions_def)
  have c: "matchesRule allowMyrepo baseClaims"
    unfolding matchesRule_conditions [of allowMyrepo baseClaims] by code_simp
  have d: "\<not> matchesRule anyEnvironment baseClaims"
    unfolding matchesRule_conditions [of anyEnvironment baseClaims] by code_simp
  show ?thesis using a b c d by simp
qed

text \<open>
  C3, as the claim states it, fails: claims that pass validation with an empty repository
  visibility are matched by a rule whose visibility condition is the pattern \<open>**\<close>.
\<close>

theorem optional_attribute_counterexample:
  "Claims_Validate (baseClaims\<lparr>RepositoryVisibility := []\<rparr>) = None
   \<and> condRepositoryVisibility (Conditions anyVisibility) \<noteq> []
   \<and> RepositoryVisibility (baseClaims\<lparr>RepositoryVisibility := []\<rparr>) = []
   \<and> matchesRule anyVisibility (baseClaims\<lparr>RepositoryVisibility := []\<rparr>)"
proof (intro conjI)
  show "Claims_Validate (baseClaims\<lparr>RepositoryVisibility := []\<rparr>) = None"
    by (simp add: Claims_Validate_def baseClaims_def)
  show "condRepositoryVisibility (Conditions anyVisibility) \<noteq> []"
    by (simp add: anyVisibility_def emptyConditions_def)
  show "RepositoryVisibility (baseClaims\<lparr>RepositoryVisibility := []\<rparr>) = []"
    by simp
  show "matchesRule anyVisibility (baseClaims\<lparr>RepositoryVisibility := []\<rparr>)"
    by code_simp
qed

text \<open>
  C3, amended.  For every rule with an active condition on the environment, if the
  environment of the claims is the empty string then the rule does not match, whatever the
  patterns of that condition are.
\<close>

theorem empty_environment_never_matches:
  "condEnvironment (Conditions rule) \<noteq> [] \<Longrightarrow> Environment claims = [] \<Longrightarrow>
     \<not> matchesRule rule claims"
  by (simp add: matchesRule_def Let_def)

theorem empty_environment_never_matches_witness:
  "condEnvironment (Conditions anyEnvironment) \<noteq> [] \<and> Environment baseClaims = []
   \<and> Match ''**'' (Environment baseClaims)
   \<and> \<not> matchesRule anyEnvironment baseClaims"
proof -
  have a: "condEnvironment (Conditions anyEnvironment) \<noteq> []"
    by (simp add: anyEnvironment_def emptyConditions_def)
  have b: "Environment baseClaims = []"
    by (simp add: baseClaims_def)
  have c: "Match ''**'' (Environment baseClaims)"
    by code_simp
  show ?thesis
    using a b c empty_environment_never_matches [OF a b] by simp
qed




text \<open>
  C9, as the claim states it, fails: the unnamed rule matches \<open>baseClaims\<close>, and the reason
  of the result is not "rule: " followed by its (empty) name.
\<close>

theorem Evaluate_reason_counterexample:
  "matchesRule unnamedRule baseClaims
   \<and> EvalReason (Evaluate (Some validPolicy) baseClaims) \<noteq> ''rule: '' @ Name unnamedRule"
proof
  show "matchesRule unnamedRule baseClaims" by code_simp
  show "EvalReason (Evaluate (Some validPolicy) baseClaims) \<noteq> ''rule: '' @ Name unnamedRule"
    by code_simp
qed

text \<open>
  C9, amended.  When some rule matches, the result carries the name of the first matching
  rule in \<open>MatchedRule\<close>, and its reason is "rule: " followed by that name when the name is
  not empty, and "default" when the name is empty.
\<close>

theorem Evaluate_matched_rule_reason:
  assumes "\<exists>r\<in>set (Rules p). matchesRule r c"
  shows "\<exists>pre r post. Rules p = pre @ r # post \<and> (\<forall>q\<in>set pre. \<not> matchesRule q c) \<and> matchesRule r c
           \<and> MatchedRule (Evaluate (Some p) c) = Name r
           \<and> EvalReason (Evaluate (Some p) c) =
                 (if Name r = [] then ''default'' else ''rule: '' @ Name r)"
proof -
  from split_list_first_prop [OF assms]
  obtain pre r post where s: "Rules p = pre @ r # post" "matchesRule r c"
      "\<forall>q\<in>set pre. \<not> matchesRule q c"
    by blast
  have e: "Evaluate_rules (Rules p) c =
     Some \<lparr>Allowed = (Effect r = EffectAllow), MatchedRule = Name r,
           EvalReason = (if Name r \<noteq> [] then ''rule: '' @ Name r else ''default'')\<rparr>"
    unfolding s(1) by (rule Evaluate_rules_first [OF s(3) s(2)])
  have "MatchedRule (Evaluate (Some p) c) = Name r"
    by (simp add: Evaluate_def e)
  moreover have "EvalReason (Evaluate (Some p) c) =
                 (if Name r = [] then ''default'' else ''rule: '' @ Name r)"
    by (simp add: Evaluate_def e)
  ultimately show ?thesis using s by blast
qed

theorem Evaluate_matched_rule_reason_witness:
  "(\<exists>r\<in>set (Rules \<lparr>Rules = [allowOtherrepo, allowMyrepo], DefaultDeny = True\<rparr>).
       matchesRule r baseClaims)
   \<and> MatchedRule (Evaluate (Some \<lparr>Rules = [allowOtherrepo, allowMyrepo], DefaultDeny = True\<rparr>)
        baseClaims) = ''allow-myrepo''
   \<and> EvalReason (Evaluate (Some \<lparr>Rules = [allowOtherrepo, allowMyrepo], DefaultDeny = True\<rparr>)
        baseClaims) = ''rule: allow-myrepo''"
proof -
  let ?p = "\<lparr>Rules = [allowOtherrepo, allowMyrepo], DefaultDeny = True\<rparr>"
  have m2: "matchesRule allowMyrepo baseClaims" by code_simp
  have m3: "\<not> matchesRule allowOtherrepo baseClaims" by code_simp
  have h: "\<exists>r\<in>set (Rules ?p). matchesRule r baseClaims"
    using m2 by simp
  from Evaluate_matched_rule_reason [OF h]
  obtain pre r post where s: "Rules ?p = pre @ r # post" "\<forall>q\<in>set pre. \<not> matchesRule q baseClaims"
      "matchesRule r baseClaims"
      "MatchedRule (Evaluate (Some ?p) baseClaims) = Name r"
      "EvalReason (Evaluate (Some ?p) baseClaims) =
         (if Name r = [] then ''default'' else ''rule: '' @ Name r)"
    by blast
  from s(1,3) m3 have "r = allowMyrepo"
    by (auto simp: Cons_eq_append_conv)
  with s(4,5) h show ?thesis
    by (simp add: allowMyrepo_def)
qed

section \<open>The key cache\<close>

lemma time_Since_fields [simp]:
  "http (snd (time_Since w t)) = http w"
  "refreshes (snd (time_Since w t)) = refreshes w"
  "snd (time_Since w t) = w\<lparr>ticks := Suc (ticks w)\<rparr>"
  by (simp_all add: time_Since_def time_Now_def)

lemma refresh_counts:
  "refreshes (snd (snd (refresh w f))) = Suc (refreshes w)"
  by (simp add: refresh_def Let_def time_Now_def split: http_outcome.splits sum.splits)

lemma refresh_success:
  "http w (url f) (refreshes w) = Response 200 (Inr keys) \<Longrightarrow>
   refresh w f =
     (None, f\<lparr>cache := convertKeys keys Map.empty, cachedAt := clock w (ticks w)\<rparr>,
      w\<lparr>refreshes := Suc (refreshes w), ticks := Suc (ticks w)\<rparr>)"
  by (simp add: refresh_def Let_def time_Now_def)

lemma refresh_success_iff:
  "fst (refresh w f) = None \<longleftrightarrow> (\<exists>keys. http w (url f) (refreshes w) = Response 200 (Inr keys))"
  by (simp add: refresh_def Let_def time_Now_def split: http_outcome.splits sum.splits)

lemma refresh_failure:
  assumes "fst (refresh w f) = Some err"
  shows "refresh w f = (Some err, f, w\<lparr>refreshes := Suc (refreshes w)\<rparr>) \<and> Err err = ErrJWKSFetch"
  using assms
  by (auto simp add: refresh_def Let_def time_Now_def split: http_outcome.splits sum.splits if_splits)

lemma GetKey_hit:
  assumes "cache f kid = Some key" "fst (time_Since w (cachedAt f)) < cacheDuration f"
  shows "GetKey w f kid = (Inr key, f, w\<lparr>ticks := Suc (ticks w)\<rparr>)"
  using assms by (simp add: GetKey_def split_beta)

lemma GetKey_miss_counts:
  "refreshes (snd (snd (GetKey_miss w f kid))) = Suc (refreshes w)"
  using refresh_counts [of w f]
  by (auto simp add: GetKey_miss_def split: prod.splits option.splits)

lemma GetKey_not_hit:
  assumes "\<not> cacheHit w f kid"
  shows "GetKey w f kid =
     GetKey_miss (if cache f kid = None then w else w\<lparr>ticks := Suc (ticks w)\<rparr>) f kid"
  using assms by (auto simp add: GetKey_def cacheHit_def split_beta split: option.splits)

lemma GetKey_miss_success:
  assumes "http w (url f) (refreshes w) = Response 200 (Inr keys)"
  shows "fst (GetKey_miss w f kid) =
           (case convertKeys keys Map.empty kid of
              None \<Rightarrow> Inl (NewValidationError ErrKeyNotFound (KeyIDNotFound kid))
            | Some key \<Rightarrow> Inr key)
         \<and> cache (fst (snd (GetKey_miss w f kid))) = convertKeys keys Map.empty"
  by (simp add: GetKey_miss_def refresh_success [OF assms] split: option.splits)

lemma decodeMap_examples:
  "decodeMap (CHR ''D'') = Some 3" "decodeMap (CHR ''K'') = Some 10"
  "decodeMap (CHR ''E'') = Some 4" "decodeMap (CHR ''Q'') = Some 16"
  by (simp_all add: decodeMap_def encodeURL_def)

lemma DecodeString_examples:
  "DecodeString ''DKE'' = Some [12, 161]" "DecodeString ''EQ'' = Some [17]"
  "DecodeString [] = Some []"
  by (simp_all add: DecodeString_def decodeMap_examples)

lemma SetBytes_examples:
  "SetBytes [12, 161] = 3233" "SetBytes [17] = 17" "SetBytes [] = 0"
  by (simp_all add: SetBytes_def)

lemma Int64_examples: "Int64 17 = 17" "Int64 0 = 0"
  by (simp_all add: Int64_def)

lemma testJWK_key: "jwkToPublicKey testJWK = Inr \<lparr>pkN = 3233, pkE = 17\<rparr>"
  by (simp add: jwkToPublicKey_def testJWK_def DecodeString_examples SetBytes_examples
        Int64_examples)

lemma testJWK_fields: "Kty testJWK = ''RSA''" "Kid testJWK = ''test-key''"
  by (simp_all add: testJWK_def)

lemma testJWK_cache: "convertKeys [testJWK] Map.empty = [''test-key'' \<mapsto> \<lparr>pkN = 3233, pkE = 17\<rparr>]"
  by (simp add: testJWK_key testJWK_fields)

text \<open>
  C4.  A lookup of a key identifier that is in the cache, at a cache age below the
  configured duration, returns that key and leaves the fetcher and the endpoint alone (only
  the clock has been read).  Any other lookup runs \<open>refresh\<close> exactly once.  When that
  refresh succeeds, the cache is the converted key set and is looked up again: the key found
  there is returned, and an identifier still absent gives the error \<open>ErrKeyNotFound\<close>, with
  no second refresh.
\<close>

theorem GetKey_protocol:
  "(cache f kid = Some key \<and> fst (time_Since w (cachedAt f)) < cacheDuration f \<longrightarrow>
      GetKey w f kid = (Inr key, f, w\<lparr>ticks := Suc (ticks w)\<rparr>)
      \<and> refreshes (snd (snd (GetKey w f kid))) = refreshes w)
   \<and> (\<not> cacheHit w f kid \<longrightarrow> refreshes (snd (snd (GetKey w f kid))) = Suc (refreshes w))
   \<and> (\<not> cacheHit w f kid \<and> http w (url f) (refreshes w) = Response 200 (Inr keys) \<longrightarrow>
        cache (fst (snd (GetKey w f kid))) = convertKeys keys Map.empty
        \<and> fst (GetKey w f kid) =
            (case cache (fst (snd (GetKey w f kid))) kid of
               None \<Rightarrow> Inl (NewValidationError ErrKeyNotFound (KeyIDNotFound kid))
             | Some key' \<Rightarrow> Inr key'))"
proof (intro conjI impI)
  assume h: "cache f kid = Some key \<and> fst (time_Since w (cachedAt f)) < cacheDuration f"
  then show g: "GetKey w f kid = (Inr key, f, w\<lparr>ticks := Suc (ticks w)\<rparr>)"
    by (simp add: GetKey_hit)
  show "refreshes (snd (snd (GetKey w f kid))) = refreshes w"
    unfolding g by simp
next
  assume "\<not> cacheHit w f kid"
  then show "refreshes (snd (snd (GetKey w f kid))) = Suc (refreshes w)"
    by (simp add: GetKey_not_hit GetKey_miss_counts)
next
  assume h: "\<not> cacheHit w f kid \<and> http w (url f) (refreshes w) = Response 200 (Inr keys)"
  let ?w = "if cache f kid = None then w else w\<lparr>ticks := Suc (ticks w)\<rparr>"
  from h have nh: "\<not> cacheHit w f kid" by blast
  have g: "GetKey w f kid = GetKey_miss ?w f kid"
    by (rule GetKey_not_hit [OF nh])
  from h have r: "http ?w (url f) (refreshes ?w) = Response 200 (Inr keys)"
    by simp
  show c: "cache (fst (snd (GetKey w f kid))) = convertKeys keys Map.empty"
    unfolding g using GetKey_miss_success [OF r, of kid] by blast
  show "fst (GetKey w f kid) =
            (case cache (fst (snd (GetKey w f kid))) kid of
               None \<Rightarrow> Inl (NewValidationError ErrKeyNotFound (KeyIDNotFound kid))
             | Some key' \<Rightarrow> Inr key')"
    unfolding c unfolding g using GetKey_miss_success [OF r, of kid] by blast
qed

theorem GetKey_protocol_witness:
  "GetKey earlyWorld staleFetcher ''test-key'' =
      (Inr \<lparr>pkN = 3233, pkE = 17\<rparr>, staleFetcher, earlyWorld\<lparr>ticks := 1\<rparr>)
   \<and> \<not> cacheHit upWorld (NewJWKSFetcher [] 0) ''nonexistent-key''
   \<and> refreshes (snd (snd (GetKey upWorld (NewJWKSFetcher [] 0) ''nonexistent-key''))) = 1
   \<and> fst (GetKey upWorld (NewJWKSFetcher [] 0) ''nonexistent-key'') =
        Inl (NewValidationError ErrKeyNotFound (KeyIDNotFound ''nonexistent-key''))
   \<and> \<not> cacheHit upWorld (NewJWKSFetcher [] 0) ''test-key''
   \<and> fst (GetKey upWorld (NewJWKSFetcher [] 0) ''test-key'') = Inr \<lparr>pkN = 3233, pkE = 17\<rparr>"
proof -
  let ?f = "NewJWKSFetcher [] 0"
  have h1: "cache staleFetcher ''test-key'' = Some \<lparr>pkN = 3233, pkE = 17\<rparr>
        \<and> fst (time_Since earlyWorld (cachedAt staleFetcher)) < cacheDuration staleFetcher"
    by (simp add: staleFetcher_def earlyWorld_def time_Since_def time_Now_def)
  have t: "ticks earlyWorld = 0" by (simp add: earlyWorld_def)
  have m: "\<not> cacheHit upWorld ?f kid" for kid
    by (simp add: cacheHit_def NewJWKSFetcher_def)
  have r: "http upWorld (url ?f) (refreshes upWorld) = Response 200 (Inr [testJWK])"
    "refreshes upWorld = 0"
    by (simp_all add: upWorld_def)
  from GetKey_protocol [of staleFetcher "''test-key''" "\<lparr>pkN = 3233, pkE = 17\<rparr>" earlyWorld] h1 t
  have a: "GetKey earlyWorld staleFetcher ''test-key'' =
      (Inr \<lparr>pkN = 3233, pkE = 17\<rparr>, staleFetcher, earlyWorld\<lparr>ticks := 1\<rparr>)"
    by simp
  from GetKey_protocol [of ?f "''nonexistent-key''" _ upWorld "[testJWK]"] m r(1)
  have b0: "refreshes (snd (snd (GetKey upWorld ?f ''nonexistent-key''))) = Suc (refreshes upWorld)"
    "cache (fst (snd (GetKey upWorld ?f ''nonexistent-key''))) = convertKeys [testJWK] Map.empty"
    "fst (GetKey upWorld ?f ''nonexistent-key'') =
       (case cache (fst (snd (GetKey upWorld ?f ''nonexistent-key''))) ''nonexistent-key'' of
          None \<Rightarrow> Inl (NewValidationError ErrKeyNotFound (KeyIDNotFound ''nonexistent-key''))
        | Some key' \<Rightarrow> Inr key')"
    by blast+
  have b: "refreshes (snd (snd (GetKey upWorld ?f ''nonexistent-key''))) = 1"
    "fst (GetKey upWorld ?f ''nonexistent-key'') =
        Inl (NewValidationError ErrKeyNotFound (KeyIDNotFound ''nonexistent-key''))"
    using b0(1) r(2) apply simp
    apply (subst b0(3))
    apply (simp only: b0(2) testJWK_cache)
    apply simp
    done
  from GetKey_protocol [of ?f "''test-key''" _ upWorld "[testJWK]"] m r(1)
  have c0: "cache (fst (snd (GetKey upWorld ?f ''test-key''))) = convertKeys [testJWK] Map.empty"
    "fst (GetKey upWorld ?f ''test-key'') =
       (case cache (fst (snd (GetKey upWorld ?f ''test-key''))) ''test-key'' of
          None \<Rightarrow> Inl (NewValidationError ErrKeyNotFound (KeyIDNotFound ''test-key''))
        | Some key' \<Rightarrow> Inr key')"
    by blast+
  have c: "fst (GetKey upWorld ?f ''test-key'') = Inr \<lparr>pkN = 3233, pkE = 17\<rparr>"
    apply (subst c0(2))
    apply (simp only: c0(1) testJWK_cache)
    apply simp
    done
  show ?thesis
    using a b c m by simp
qed

text \<open>
  C5, as the claim states it, fails: the key is in the cache, the cache is stale, the
  endpoint is down, and \<open>GetKey\<close> returns the fetch error instead of the cached key.
\<close>

theorem stale_key_counterexample:
  "cache staleFetcher ''test-key'' = Some \<lparr>pkN = 3233, pkE = 17\<rparr>
   \<and> \<not> fst (time_Since downWorld (cachedAt staleFetcher)) < cacheDuration staleFetcher
   \<and> fst (GetKey downWorld staleFetcher ''test-key'') =
        Inl (NewValidationError ErrJWKSFetch (Text ''connection refused''))"
  by (simp add: GetKey_def GetKey_miss_def refresh_def time_Since_def time_Now_def
        staleFetcher_def downWorld_def Let_def)

text \<open>
  C5, amended.  Every refresh failure (the request cannot be built, the transport fails,
  the status is not 200, the body is malformed) gives an \<open>ErrJWKSFetch\<close> error and leaves the
  fetcher, its cached key set and its fetch timestamp, untouched.  A \<open>GetKey\<close> call that finds
  its key in a stale cache and whose refresh fails returns that error, not the cached key, and
  leaves the fetcher untouched.
\<close>

theorem refresh_failure_keeps_cache:
  "(http w (url f) (refreshes w) = NewRequestError e \<longrightarrow>
      refresh w f = (Some (NewValidationError ErrJWKSFetch (Text e)), f,
                     w\<lparr>refreshes := Suc (refreshes w)\<rparr>))
   \<and> (http w (url f) (refreshes w) = DoError e \<longrightarrow>
      refresh w f = (Some (NewValidationError ErrJWKSFetch (Text e)), f,
                     w\<lparr>refreshes := Suc (refreshes w)\<rparr>))
   \<and> (http w (url f) (refreshes w) = Response status body \<and> status \<noteq> 200 \<longrightarrow>
      refresh w f = (Some (NewValidationError ErrJWKSFetch (HTTPStatus status)), f,
                     w\<lparr>refreshes := Suc (refreshes w)\<rparr>))
   \<and> (http w (url f) (refreshes w) = Response 200 (Inl e) \<longrightarrow>
      refresh w f = (Some (NewValidationError ErrJWKSFetch (Text e)), f,
                     w\<lparr>refreshes := Suc (refreshes w)\<rparr>))
   \<and> (fst (refresh w f) = Some err \<longrightarrow> fst (snd (refresh w f)) = f \<and> Err err = ErrJWKSFetch)
   \<and> (cache f kid = Some key
       \<and> \<not> fst (time_Since w (cachedAt f)) < cacheDuration f
       \<and> fst (refresh (w\<lparr>ticks := Suc (ticks w)\<rparr>) f) = Some err \<longrightarrow>
      fst (GetKey w f kid) = Inl err \<and> fst (snd (GetKey w f kid)) = f)"
proof (intro conjI impI)
  assume "fst (refresh w f) = Some err"
  from refresh_failure [OF this]
  show "fst (snd (refresh w f)) = f" "Err err = ErrJWKSFetch"
    by simp_all
next
  assume h: "cache f kid = Some key
       \<and> \<not> fst (time_Since w (cachedAt f)) < cacheDuration f
       \<and> fst (refresh (w\<lparr>ticks := Suc (ticks w)\<rparr>) f) = Some err"
  then have nh: "\<not> cacheHit w f kid" by (simp add: cacheHit_def)
  from h have r: "refresh (w\<lparr>ticks := Suc (ticks w)\<rparr>) f =
      (Some err, f, w\<lparr>ticks := Suc (ticks w)\<rparr>\<lparr>refreshes := Suc (refreshes (w\<lparr>ticks := Suc (ticks w)\<rparr>))\<rparr>)"
    using refresh_failure [of "w\<lparr>ticks := Suc (ticks w)\<rparr>" f err] by blast
  have g: "GetKey w f kid = GetKey_miss (w\<lparr>ticks := Suc (ticks w)\<rparr>) f kid"
    using GetKey_not_hit [OF nh] h by simp
  show "fst (GetKey w f kid) = Inl err" "fst (snd (GetKey w f kid)) = f"
    unfolding g by (simp_all add: GetKey_miss_def r)
qed (simp_all add: refresh_def Let_def)

theorem refresh_failure_keeps_cache_witness:
  "http downWorld (url staleFetcher) (refreshes downWorld) = DoError ''connection refused''
   \<and> fst (snd (refresh downWorld staleFetcher)) = staleFetcher
   \<and> fst (GetKey downWorld staleFetcher ''test-key'') =
        Inl (NewValidationError ErrJWKSFetch (Text ''connection refused''))
   \<and> fst (snd (GetKey downWorld staleFetcher ''test-key'')) = staleFetcher"
proof -
  let ?err = "NewValidationError ErrJWKSFetch (Text ''connection refused'')"
  have d: "http downWorld (url staleFetcher) (refreshes downWorld) = DoError ''connection refused''"
    by (simp add: downWorld_def)
  have d': "http (downWorld\<lparr>ticks := Suc (ticks downWorld)\<rparr>) (url staleFetcher)
              (refreshes (downWorld\<lparr>ticks := Suc (ticks downWorld)\<rparr>)) = DoError ''connection refused''"
    by (simp add: downWorld_def)
  have s: "cache staleFetcher ''test-key'' = Some \<lparr>pkN = 3233, pkE = 17\<rparr>
       \<and> \<not> fst (time_Since downWorld (cachedAt staleFetcher)) < cacheDuration staleFetcher"
    by (simp add: staleFetcher_def downWorld_def time_Since_def time_Now_def)
  from refresh_failure_keeps_cache [of downWorld staleFetcher "''connection refused''"] d
  have a: "fst (snd (refresh downWorld staleFetcher)) = staleFetcher"
    by simp
  from refresh_failure_keeps_cache
         [of "downWorld\<lparr>ticks := Suc (ticks downWorld)\<rparr>" staleFetcher "''connection refused''"] d'
  have r: "fst (refresh (downWorld\<lparr>ticks := Suc (ticks downWorld)\<rparr>) staleFetcher) = Some ?err"
    by simp
  from refresh_failure_keeps_cache
         [of downWorld staleFetcher _ _ _ ?err "''test-key''" "\<lparr>pkN = 3233, pkE = 17\<rparr>"] s r
  have b: "fst (GetKey downWorld staleFetcher ''test-key'') = Inl ?err"
      "fst (snd (GetKey downWorld staleFetcher ''test-key'')) = staleFetcher"
    by blast+
  show ?thesis using d a b by simp
qed

text \<open>
  C6.  For every token whose signing method is not of the RSA type, the key function
  returns an \<open>ErrInvalidSignature\<close> error and leaves the fetcher and the world as they were:
  the clock is not read and no refresh runs.  The result does not depend on the \<open>kid\<close>
  header.
\<close>

theorem Keyfunc_rejects_non_RSA:
  assumes "\<not> isRSA (Method token)"
  shows "Keyfunc w f token =
           (Inl (NewValidationError ErrInvalidSignature
                   (UnexpectedSigningMethod (Header token ''alg''))), f, w)
         \<and> Keyfunc w f (token\<lparr>Header := (Header token)(''kid'' := h)\<rparr>) = Keyfunc w f token
         \<and> ticks (snd (snd (Keyfunc w f token))) = ticks w
         \<and> refreshes (snd (snd (Keyfunc w f token))) = refreshes w"
  using assms by (simp add: Keyfunc_def)

theorem Keyfunc_rejects_non_RSA_witness:
  "\<not> isRSA (Method hsToken)
   \<and> Header hsToken ''kid'' = Some (HString ''test-key'')
   \<and> Keyfunc upWorld staleFetcher hsToken =
       (Inl (NewValidationError ErrInvalidSignature
               (UnexpectedSigningMethod (Some (HString ''HS256'')))), staleFetcher, upWorld)"
proof -
  have a: "\<not> isRSA (Method hsToken)"
    by (simp add: hsToken_def isRSA_def)
  have b: "Header hsToken ''kid'' = Some (HString ''test-key'')"
      "Header hsToken ''alg'' = Some (HString ''HS256'')"
    by (simp_all add: hsToken_def)
  from Keyfunc_rejects_non_RSA [OF a, of upWorld staleFetcher] a b
  show ?thesis by simp
qed

lemma jwkToPublicKey_cases:
  "jwkToPublicKey jwk =
     (if DecodeString (N jwk) = None then Inl FailedDecodeN
      else if DecodeString (E jwk) = None then Inl FailedDecodeE
      else Inr (keyOf jwk))"
  by (auto simp add: jwkToPublicKey_def keyOf_def Let_def split: option.splits)

lemma convertKeys_step:
  "convertKeys (jwk # jwks) m =
     (if accepted jwk then convertKeys jwks (m(Kid jwk \<mapsto> keyOf jwk)) else convertKeys jwks m)"
  by (simp add: jwkToPublicKey_cases accepted_def)

lemma convertKeys_lookup:
  "convertKeys keys m kid =
     (case filter (\<lambda>j. Kid j = kid \<and> accepted j) keys of
        [] \<Rightarrow> m kid
      | j # js \<Rightarrow> Some (keyOf (last (j # js))))"
proof (induction keys arbitrary: m)
  case Nil
  then show ?case by simp
next
  case (Cons x xs)
  show ?case
  proof (cases "accepted x")
    case False
    then show ?thesis
      using Cons.IH [of m] by (simp add: convertKeys_step del: convertKeys.simps)
  next
    case True
    have step: "convertKeys (x # xs) m kid = convertKeys xs (m(Kid x \<mapsto> keyOf x)) kid"
      using True by (simp only: convertKeys_step if_True)
    have ih: "convertKeys xs (m(Kid x \<mapsto> keyOf x)) kid =
       (case filter (\<lambda>j. Kid j = kid \<and> accepted j) xs of
          [] \<Rightarrow> (m(Kid x \<mapsto> keyOf x)) kid
        | j # js \<Rightarrow> Some (keyOf (last (j # js))))"
      by (rule Cons.IH)
    show ?thesis
    proof (cases "Kid x = kid")
      case False
      then show ?thesis
        unfolding step ih by (simp split: list.splits)
    next
      case k: True
      then show ?thesis
        unfolding step ih using True by (simp split: list.splits)
    qed
  qed
qed

lemma empty_decodes: "DecodeString [] = Some []" "SetBytes [] = 0" "Int64 0 = 0"
  by (simp_all add: DecodeString_def SetBytes_def Int64_def)

text \<open>
  C10.  After a successful refresh the endpoint has answered 200 with a key set, and the
  cache holds, under each key identifier, the key of the last entry of that set with this
  identifier among the entries whose key type is "RSA" and whose \<open>n\<close> and \<open>e\<close> decode; it
  holds nothing under the other identifiers.  Nothing else is checked: an entry of type
  "RSA" with empty \<open>n\<close> and \<open>e\<close> is kept, and stands for the key with modulus 0 and
  exponent 0.
\<close>

theorem refresh_cache_contents:
  assumes "refresh w f = (None, f', w')"
  shows "\<exists>keys. http w (url f) (refreshes w) = Response 200 (Inr keys)
           \<and> (\<forall>kid. cache f' kid =
                 (case filter (\<lambda>j. Kid j = kid \<and> accepted j) keys of
                    [] \<Rightarrow> None
                  | j # js \<Rightarrow> Some (keyOf (last (j # js)))))
           \<and> (\<forall>j\<in>set keys. Kty j = ''RSA'' \<and> N j = [] \<and> E j = [] \<longrightarrow>
                 accepted j \<and> keyOf j = \<lparr>pkN = 0, pkE = 0\<rparr> \<and> cache f' (Kid j) \<noteq> None)"
proof -
  from assms have "fst (refresh w f) = None" by simp
  then obtain keys where k: "http w (url f) (refreshes w) = Response 200 (Inr keys)"
    using refresh_success_iff by blast
  from refresh_success [OF k] assms
  have f': "f' = f\<lparr>cache := convertKeys keys Map.empty, cachedAt := clock w (ticks w)\<rparr>"
    by simp
  have c: "cache f' kid =
         (case filter (\<lambda>j. Kid j = kid \<and> accepted j) keys of
            [] \<Rightarrow> None
          | j # js \<Rightarrow> Some (keyOf (last (j # js))))" for kid
    unfolding f' using convertKeys_lookup [of keys Map.empty kid] by simp
  have d: "accepted j \<and> keyOf j = \<lparr>pkN = 0, pkE = 0\<rparr> \<and> cache f' (Kid j) \<noteq> None"
    if j: "j \<in> set keys" "Kty j = ''RSA'' \<and> N j = [] \<and> E j = []" for j
  proof -
    have a: "accepted j"
      using j(2) by (simp add: accepted_def empty_decodes)
    have z: "keyOf j = \<lparr>pkN = 0, pkE = 0\<rparr>"
      using j(2) by (simp add: keyOf_def empty_decodes)
    have "j \<in> set (filter (\<lambda>i. Kid i = Kid j \<and> accepted i) keys)"
      using j(1) a by simp
    then have "filter (\<lambda>i. Kid i = Kid j \<and> accepted i) keys \<noteq> []"
      by (metis empty_iff empty_set)
    then have "cache f' (Kid j) \<noteq> None"
      unfolding c by (simp split: list.splits)
    with a z show ?thesis by simp
  qed
  show ?thesis
    using k c d by blast
qed

lemma DecodeString_short: "DecodeString ''D'' = None"
  by (simp add: DecodeString_def decodeMap_examples)

lemma example_accepted:
  "accepted zeroJWK" "\<not> accepted ecJWK" "\<not> accepted badJWK" "accepted oldJWK" "accepted testJWK"
  by (simp_all add: accepted_def zeroJWK_def ecJWK_def badJWK_def oldJWK_def testJWK_def
        DecodeString_examples DecodeString_short)

lemma example_kids:
  "Kid zeroJWK = ''zero-key''" "Kid ecJWK = ''ec-key''" "Kid badJWK = ''bad-key''"
  "Kid oldJWK = ''test-key''" "Kid testJWK = ''test-key''"
  by (simp_all add: zeroJWK_def ecJWK_def badJWK_def oldJWK_def testJWK_def)

lemma example_keyOf:
  "keyOf zeroJWK = \<lparr>pkN = 0, pkE = 0\<rparr>" "keyOf testJWK = \<lparr>pkN = 3233, pkE = 17\<rparr>"
  by (simp_all add: keyOf_def zeroJWK_def testJWK_def DecodeString_examples SetBytes_examples
        Int64_examples)

theorem refresh_cache_contents_witness:
  "fst (refresh mixedWorld (NewJWKSFetcher [] 0)) = None
   \<and> cache (fst (snd (refresh mixedWorld (NewJWKSFetcher [] 0)))) ''test-key''
        = Some \<lparr>pkN = 3233, pkE = 17\<rparr>
   \<and> cache (fst (snd (refresh mixedWorld (NewJWKSFetcher [] 0)))) ''zero-key''
        = Some \<lparr>pkN = 0, pkE = 0\<rparr>
   \<and> cache (fst (snd (refresh mixedWorld (NewJWKSFetcher [] 0)))) ''ec-key'' = None
   \<and> cache (fst (snd (refresh mixedWorld (NewJWKSFetcher [] 0)))) ''bad-key'' = None"
proof -
  let ?f = "NewJWKSFetcher [] 0"
  let ?f' = "fst (snd (refresh mixedWorld ?f))"
  have k: "http mixedWorld (url ?f) (refreshes mixedWorld) = Response 200 (Inr mixedKeys)"
    by (simp add: mixedWorld_def)
  have rs: "refresh mixedWorld ?f = (None, ?f', snd (snd (refresh mixedWorld ?f)))"
    by (simp add: refresh_success [OF k])
  from refresh_cache_contents [OF rs] k
  have c: "cache ?f' kid =
         (case filter (\<lambda>j. Kid j = kid \<and> accepted j) mixedKeys of
            [] \<Rightarrow> None
          | j # js \<Rightarrow> Some (keyOf (last (j # js))))" for kid
    by auto
  have "fst (refresh mixedWorld ?f) = None"
    using rs by (metis fst_conv)
  moreover have "cache ?f' ''test-key'' = Some \<lparr>pkN = 3233, pkE = 17\<rparr>"
    unfolding c by (simp add: mixedKeys_def example_accepted example_kids example_keyOf)
  moreover have "cache ?f' ''zero-key'' = Some \<lparr>pkN = 0, pkE = 0\<rparr>"
    unfolding c by (simp add: mixedKeys_def example_accepted example_kids example_keyOf)
  moreover have "cache ?f' ''ec-key'' = None"
    unfolding c by (simp add: mixedKeys_def example_accepted example_kids)
  moreover have "cache ?f' ''bad-key'' = None"
    unfolding c by (simp add: mixedKeys_def example_accepted example_kids)
  ultimately show ?thesis by simp
qed

end
